theory Spec2Isabelle
  imports Complex_Main "HOL-Library.Log_Nat"
begin

section \<open>Data model (declaration/types.d.ts)\<close>

text \<open>
  A JavaScript string is a sequence of code units; it is modelled as a \<open>string\<close>, one
  \<open>char\<close> per code unit (so the model covers the code units below 256). JavaScript
  numbers that only ever hold integers (indices, columns, rows, widths) are \<open>int\<close>.
  The fields of \<open>Token\<close> and \<open>Message\<close> carry the suffixes \<open>_tok\<close> and \<open>_msg\<close>,
  since \<open>i\<close>, \<open>x\<close>, \<open>y\<close> and \<open>text\<close> are needed as variable names and the two
  interfaces share the field name \<open>text\<close>.
\<close>

record Style =
  color :: string
  weight :: string

record Token =
  i_tok :: int
  x_tok :: int
  y_tok :: int
  text_tok :: string
  style_tok :: Style

text \<open>
  The declared type of \<open>language\<close> is \<open>string\<close>, but the widget itself tests
  \<open>language == null\<close>: \<open>None\<close> stands for a missing (undefined or null) field.
\<close>

record Message =
  type_msg :: string
  width_msg :: int
  height_msg :: int
  text_msg :: string
  tokens_msg :: "Token list"
  language_msg :: "string option"

definition newline :: string where
  "newline = [CHR 0x0A]"

section \<open>Grid tokenizer of the editor (iframe/src/ui.ts, lines 189-211)\<close>

definition DEFAULT_STYLE :: Style where
  "DEFAULT_STYLE = \<lparr>color = [], weight = []\<rparr>"

text \<open>
  The \<open>for\<close> loop over \<open>docContents\<close>: the first argument is the part of the document
  still to be read, \<open>i\<close>, \<open>x\<close>, \<open>y\<close>, \<open>width\<close> and \<open>tokens\<close> are the loop's variables.
  The result is their value when the loop ends.
\<close>

fun grid_loop :: "string \<Rightarrow> int \<Rightarrow> int \<Rightarrow> int \<Rightarrow> int \<Rightarrow> Token list
    \<Rightarrow> Token list \<times> int \<times> int \<times> int" where
  "grid_loop [] i x y width tokens = (tokens, x, y, width)"
| "grid_loop (c # cs) i x y width tokens =
     (let text = [c];
          tokens' = tokens @ [\<lparr>i_tok = i, x_tok = x, y_tok = y, text_tok = text,
                                style_tok = DEFAULT_STYLE\<rparr>]
      in if text = newline
         then grid_loop cs (i + 1) 0 (y + 1) width tokens'
         else (let x' = x + 1
               in grid_loop cs (i + 1) x' y (if x' > width then x' else width) tokens'))"

definition grid :: "string \<Rightarrow> Token list \<times> int \<times> int \<times> int" where
  "grid docContents = grid_loop docContents 0 0 0 0 []"

definition grid_tokens :: "string \<Rightarrow> Token list" where
  "grid_tokens docContents = fst (grid docContents)"

definition grid_x :: "string \<Rightarrow> int" where
  "grid_x docContents = fst (snd (grid docContents))"

definition grid_y :: "string \<Rightarrow> int" where
  "grid_y docContents = fst (snd (snd (grid docContents)))"

definition grid_width :: "string \<Rightarrow> int" where
  "grid_width docContents = snd (snd (snd (grid docContents)))"

definition grid_height :: "string \<Rightarrow> int" where
  "grid_height docContents = grid_y docContents + 1"


section \<open>Style resolver and span applier (iframe/src/ui.ts, lines 133-160 and 213-218)\<close>

text \<open>
  \<open>getStyle\<close> reads the computed style of a temporary element of the given class from
  the DOM; the DOM is outside the program, so that reading is the parameter
  \<open>computed\<close>. \<open>STYLE_CACHE\<close> is an object used as a dictionary (class names are taken
  not to be names of properties every object inherits); it is passed in and returned.
  After a miss the source stores the computed style and calls itself again, which then
  hits the cache: the second call is unfolded here.
\<close>

type_synonym style_cache = "string \<rightharpoonup> Style"

definition getStyle :: "(string \<Rightarrow> Style) \<Rightarrow> style_cache \<Rightarrow> string \<Rightarrow> Style \<times> style_cache" where
  "getStyle computed STYLE_CACHE className =
     (case STYLE_CACHE className of
        Some cached \<Rightarrow> (cached, STYLE_CACHE)
      | None \<Rightarrow>
          (let stored = \<lparr>color = color (computed className), weight = weight (computed className)\<rparr>
           in (stored, STYLE_CACHE(className \<mapsto> stored))))"

text \<open>
  \<open>tokens[i].style = ...\<close> throws a TypeError when \<open>tokens[i]\<close> is undefined, that is
  when \<open>i\<close> is not an index of the array. The update listener does not catch it, so the
  whole synthesis is abandoned and no message is posted.
\<close>

datatype error = TypeError

function color_range :: "(string \<Rightarrow> Style) \<Rightarrow> string \<Rightarrow> int \<Rightarrow> int \<Rightarrow> Token list \<Rightarrow> style_cache
    \<Rightarrow> error + Token list \<times> style_cache" where
  "color_range computed className i to tokens STYLE_CACHE =
     (if i < to
      then (if 0 \<le> i \<and> i < int (length tokens)
            then (case getStyle computed STYLE_CACHE className of
                    (s, STYLE_CACHE') \<Rightarrow>
                      color_range computed className (i + 1) to
                        (tokens[nat i := (tokens ! nat i)\<lparr>style_tok := s\<rparr>]) STYLE_CACHE')
            else Inl TypeError)
      else Inr (tokens, STYLE_CACHE))"
  by pat_completeness auto
termination
  by (relation "measure (\<lambda>(computed, className, i, to, tokens, STYLE_CACHE). nat (to - i))") auto

fun color_tokens :: "(string \<Rightarrow> Style) \<Rightarrow> (int \<times> int \<times> string) list \<Rightarrow> Token list \<Rightarrow> style_cache
    \<Rightarrow> error + Token list \<times> style_cache" where
  "color_tokens computed [] tokens STYLE_CACHE = Inr (tokens, STYLE_CACHE)"
| "color_tokens computed (highlight # highlighting) tokens STYLE_CACHE =
     (case highlight of (from, to, className) \<Rightarrow>
        (case color_range computed className from to tokens STYLE_CACHE of
           Inl e \<Rightarrow> Inl e
         | Inr (tokens', STYLE_CACHE') \<Rightarrow> color_tokens computed highlighting tokens' STYLE_CACHE'))"

section \<open>Run coalescer (iframe/src/ui.ts, lines 220-268)\<close>

text \<open>
  \<open>flushTokens\<close> is a closure over \<open>newTokens\<close> and \<open>currentRun\<close>; it takes both and
  returns both.
\<close>

definition flushTokens :: "Token list \<Rightarrow> Token list \<Rightarrow> Token list \<times> Token list" where
  "flushTokens newTokens currentRun =
     (case currentRun of
        [] \<Rightarrow> (newTokens, currentRun)
      | firstToken # _ \<Rightarrow>
          (let combinedTokenText = foldl (\<lambda>acc token. acc @ text_tok token) [] currentRun
           in (newTokens @ [\<lparr>i_tok = i_tok firstToken, x_tok = x_tok firstToken,
                              y_tok = y_tok firstToken, text_tok = combinedTokenText,
                              style_tok = style_tok firstToken\<rparr>], [])))"

fun group_loop :: "Token list \<Rightarrow> Token list \<Rightarrow> Token option \<Rightarrow> Token list
    \<Rightarrow> Token list \<times> Token list" where
  "group_loop [] newTokens prevToken currentRun = (newTokens, currentRun)"
| "group_loop (token # rest) newTokens prevToken currentRun =
     (if text_tok token = newline
      then (case flushTokens newTokens currentRun of
              (newTokens', currentRun') \<Rightarrow> group_loop rest newTokens' (Some token) currentRun')
      else (case (case prevToken of
                    None \<Rightarrow> (newTokens, currentRun)
                  | Some p \<Rightarrow>
                      if color (style_tok p) \<noteq> color (style_tok token)
                         \<or> weight (style_tok p) \<noteq> weight (style_tok token)
                      then flushTokens newTokens currentRun
                      else (newTokens, currentRun)) of
              (newTokens', currentRun') \<Rightarrow>
                group_loop rest newTokens' (Some token) (currentRun' @ [token])))"

definition group_tokens :: "Token list \<Rightarrow> Token list" where
  "group_tokens tokens =
     (case group_loop tokens [] None [] of
        (newTokens, currentRun) \<Rightarrow> fst (flushTokens newTokens currentRun))"

section \<open>The update listener: one synthesis pass (iframe/src/ui.ts, lines 173-286)\<close>

text \<open>
  \<open>highlighting\<close> is what the external highlighter pushed: triples \<open>(from, to, classes)\<close>.
  The result is the posted message with the cache the call leaves behind, or the error
  that ended the pass.
\<close>

definition styled_tokens :: "(string \<Rightarrow> Style) \<Rightarrow> style_cache \<Rightarrow> string \<Rightarrow> (int \<times> int \<times> string) list
    \<Rightarrow> error + Token list \<times> style_cache" where
  "styled_tokens computed STYLE_CACHE docContents highlighting =
     color_tokens computed highlighting (grid_tokens docContents) STYLE_CACHE"

definition update_message :: "(string \<Rightarrow> Style) \<Rightarrow> style_cache \<Rightarrow> string \<Rightarrow> (int \<times> int \<times> string) list
    \<Rightarrow> string \<Rightarrow> error + Message \<times> style_cache" where
  "update_message computed STYLE_CACHE docContents highlighting languageName =
     (case styled_tokens computed STYLE_CACHE docContents highlighting of
        Inl e \<Rightarrow> Inl e
      | Inr (tokens, STYLE_CACHE') \<Rightarrow>
          Inr (\<lparr>type_msg = ''text'', width_msg = grid_width docContents,
                height_msg = grid_height docContents, text_msg = docContents,
                tokens_msg = group_tokens tokens, language_msg = Some languageName\<rparr>,
               STYLE_CACHE'))"

section \<open>Placeholder synthesizer and sync bridge (widget/src/code.tsx)\<close>

definition PLACEHOLDER :: string where
  "PLACEHOLDER = ''rgb(128, 128, 128)''"

definition PLACEHOLDER_TEXT :: string where
  "PLACEHOLDER_TEXT = ''Type code...''"

fun placeholder_loop :: "string \<Rightarrow> int \<Rightarrow> int \<Rightarrow> int \<Rightarrow> int \<Rightarrow> Token list
    \<Rightarrow> Token list \<times> int \<times> int \<times> int" where
  "placeholder_loop [] i x y width tokens = (tokens, x, y, width)"
| "placeholder_loop (c # cs) i x y width tokens =
     (let text = [c];
          tokens' = tokens @ [\<lparr>i_tok = i, x_tok = x, y_tok = y, text_tok = text,
                                style_tok = \<lparr>color = PLACEHOLDER, weight = ''normal''\<rparr>\<rparr>]
      in if text = newline
         then placeholder_loop cs (i + 1) 0 (y + 1) width tokens'
         else (let x' = x + 1
               in placeholder_loop cs (i + 1) x' y (if x' > width then x' else width) tokens'))"

definition placeholderTokens :: "string \<Rightarrow> string option \<Rightarrow> Message" where
  "placeholderTokens placeholderText language =
     (case placeholder_loop placeholderText 0 0 0 0 [] of
        (tokens, x, y, width) \<Rightarrow>
          \<lparr>type_msg = ''text'', width_msg = width, height_msg = y + 1,
           text_msg = placeholderText, tokens_msg = tokens,
           language_msg = (case language of None \<Rightarrow> Some ''JavaScript'' | Some l \<Rightarrow> Some l)\<rparr>)"

text \<open>
  The handler installed on \<open>figma.ui.onmessage\<close>: the synced state \<open>tokens\<close> before the
  message, the message, and the synced state after it.
\<close>

definition onmessage :: "Message \<Rightarrow> Message \<Rightarrow> Message" where
  "onmessage tokens msg =
     (if type_msg msg = ''text''
      then (if text_msg msg = [] then placeholderTokens PLACEHOLDER_TEXT (language_msg msg)
            else msg)
      else tokens)"


section \<open>String primitives of JavaScript used by the widget\<close>

text \<open>
  White space and line terminators as \<open>trim\<close> and \<open>parseInt\<close> strip them, among the code
  units below 256: tab, line feed, vertical tab, form feed, carriage return, space and
  the no-break space.
\<close>

definition isWhiteSpace :: "char \<Rightarrow> bool" where
  "isWhiteSpace c \<longleftrightarrow>
     c \<in> set [CHR 0x09, CHR 0x0A, CHR 0x0B, CHR 0x0C, CHR 0x0D, CHR 0x20, CHR 0xA0]"

definition trim :: "string \<Rightarrow> string" where
  "trim s = rev (dropWhile isWhiteSpace (rev (dropWhile isWhiteSpace s)))"

text \<open>
  \<open>toLowerCase\<close> on the code units below 256: the letters A-Z and the capital letters
  of Latin-1 (0xC0-0xDE without the multiplication sign 0xD7) move up by 32.
\<close>

definition lowerChar :: "char \<Rightarrow> char" where
  "lowerChar c =
     (let n = (of_char c :: nat)
      in if (65 \<le> n \<and> n \<le> 90) \<or> (192 \<le> n \<and> n \<le> 222 \<and> n \<noteq> 215)
         then char_of (n + 32) else c)"

definition toLowerCase :: "string \<Rightarrow> string" where
  "toLowerCase s = map lowerChar s"

definition startsWith :: "string \<Rightarrow> string \<Rightarrow> bool" where
  "startsWith s p \<longleftrightarrow> take (length p) s = p"

text \<open>
  A JavaScript number is a double: NaN, an infinity, or a finite value (a real number
  that a double can hold). Negative zero is not told apart from zero; no operation used
  here distinguishes them.
\<close>

datatype jsnumber = NaN | PosInfinity | NegInfinity | Num real

text \<open>
  The conversion of a real number to the nearest double, ties to the even significand.
  \<open>binade x\<close> is the exponent \<open>e\<close> with \<open>2^e \<le> |x| < 2^(e+1)\<close>. The doubles around \<open>x\<close>
  are the multiples of \<open>2^(e-52)\<close>, and of \<open>2^(-1074)\<close> in the subnormal range. A result
  of magnitude \<open>2^1024\<close> or more is an infinity.
\<close>

definition binade :: "real \<Rightarrow> int" where
  "binade x =
     (if 1 \<le> \<bar>x\<bar> then int (floorlog 2 (nat \<lfloor>\<bar>x\<bar>\<rfloor>)) - 1
      else - int (floorlog 2 (nat (\<lceil>1 / \<bar>x\<bar>\<rceil> - 1))))"

definition round_half_even :: "real \<Rightarrow> int" where
  "round_half_even m =
     (let f = \<lfloor>m\<rfloor>; d = m - of_int f
      in if d < 1 / 2 then f else if 1 / 2 < d then f + 1 else if even f then f else f + 1)"

definition double_limit :: real where
  "double_limit = 2 ^ 1024"

definition to_double :: "real \<Rightarrow> jsnumber" where
  "to_double x =
     (if x = 0 then Num 0
      else (let q = 2 powi (max (binade x - 52) (- 1074));
                v = of_int (round_half_even (x / q)) * q
            in if double_limit \<le> v then PosInfinity
               else if v \<le> - double_limit then NegInfinity
               else Num v))"

text \<open>
  \<open>parseInt\<close> with no radix: skip leading white space, read a sign, read the prefix
  \<open>0x\<close> or \<open>0X\<close> (then the radix is 16, else 10), and take the longest run of digits of
  the radix. No digit gives NaN. Otherwise the digits denote an integer
  (\<open>parseInt_mathInt\<close>, \<open>None\<close> when there is no digit), and the result is the double
  nearest to it: exact up to \<open>2^53\<close>, rounded above, infinite from \<open>2^1024\<close> on. (For
  more than 20 significant decimal digits the standard lets an implementation round from
  the first 20 digits only; the model rounds the exact integer.)
\<close>

definition digitValue :: "char \<Rightarrow> nat option" where
  "digitValue c =
     (let n = (of_char c :: nat)
      in if 48 \<le> n \<and> n \<le> 57 then Some (n - 48)
         else if 97 \<le> n \<and> n \<le> 102 then Some (n - 87)
         else if 65 \<le> n \<and> n \<le> 70 then Some (n - 55)
         else None)"

definition isRadixDigit :: "nat \<Rightarrow> char \<Rightarrow> bool" where
  "isRadixDigit R c = (case digitValue c of None \<Rightarrow> False | Some d \<Rightarrow> d < R)"

definition digitsValue :: "nat \<Rightarrow> string \<Rightarrow> int" where
  "digitsValue R Z =
     foldl (\<lambda>acc c. acc * int R + int (case digitValue c of None \<Rightarrow> 0 | Some d \<Rightarrow> d)) 0 Z"

definition parseInt_mathInt :: "string \<Rightarrow> int option" where
  "parseInt_mathInt string =
     (let S = dropWhile isWhiteSpace string;
          sign = (if S \<noteq> [] \<and> hd S = CHR ''-'' then - 1 else 1 :: int);
          S1 = (if S \<noteq> [] \<and> (hd S = CHR ''+'' \<or> hd S = CHR ''-'') then tl S else S);
          hex = (2 \<le> length S1 \<and> (take 2 S1 = ''0x'' \<or> take 2 S1 = ''0X''));
          R = (if hex then 16 else 10);
          S2 = (if hex then drop 2 S1 else S1);
          Z = takeWhile (isRadixDigit R) S2
      in if Z = [] then None else Some (sign * digitsValue R Z))"

definition parseInt :: "string \<Rightarrow> jsnumber" where
  "parseInt string =
     (case parseInt_mathInt string of
        None \<Rightarrow> NaN
      | Some mathInt \<Rightarrow> to_double (of_int mathInt))"

text \<open>
  The remainder operator \<open>%\<close> on finite numbers with a divisor that is not zero: the
  quotient is truncated, the sign is the dividend's, and the result is exact.
\<close>

definition js_rem :: "real \<Rightarrow> real \<Rightarrow> real" where
  "js_rem a b = sgn a * (\<bar>a\<bar> - \<bar>b\<bar> * of_int \<lfloor>\<bar>a\<bar> / \<bar>b\<bar>\<rfloor>)"

section \<open>Weight and colour of a rendered token (widget/src/code.tsx, lines 66-136)\<close>

text \<open>
  The result of \<open>ensureFontWeight\<close> is one of nine numbers or one of nine names.
  \<open>ensureFontWeight_name\<close> is the chain of comparisons of \<open>normalizedWeight\<close> that
  ends the function, with its final \<open>return "normal"\<close>.
\<close>

datatype FontWeight = WeightNumber int | WeightName string

definition ensureFontWeight_name :: "string \<Rightarrow> FontWeight" where
  "ensureFontWeight_name normalizedWeight =
     (if normalizedWeight = ''thin'' then WeightName ''thin''
      else if normalizedWeight = ''extra-light'' then WeightName ''extra-light''
      else if normalizedWeight = ''light'' then WeightName ''light''
      else if normalizedWeight = ''normal'' then WeightName ''normal''
      else if normalizedWeight = ''medium'' then WeightName ''medium''
      else if normalizedWeight = ''semi-bold'' then WeightName ''semi-bold''
      else if normalizedWeight = ''bold'' then WeightName ''bold''
      else if normalizedWeight = ''extra-bold'' then WeightName ''extra-bold''
      else if normalizedWeight = ''black'' then WeightName ''black''
      else WeightName ''normal'')"

text \<open>
  With \<open>weightInt\<close> NaN or infinite, \<open>weightInt % 100\<close> is NaN and the test fails. When
  the test holds, \<open>weightInt\<close> is an integer, returned as it is.
\<close>

definition ensureFontWeight :: "string \<Rightarrow> FontWeight" where
  "ensureFontWeight w =
     (if length (trim w) = 0 then WeightName ''normal''
      else (case parseInt w of
              Num weightInt \<Rightarrow>
                if js_rem weightInt 100 = 0 \<and> weightInt > 0 \<and> weightInt < 1000
                then WeightNumber \<lfloor>weightInt\<rfloor>
                else ensureFontWeight_name (trim (toLowerCase w))
            | _ \<Rightarrow> ensureFontWeight_name (trim (toLowerCase w))))"

text \<open>
  The fields of \<open>Color\<close> carry the suffix \<open>_col\<close>. \<open>divide_255\<close> is the division
  \<open>numbers[k] / 255\<close> of doubles: the double nearest to the quotient.
\<close>

record Color =
  r_col :: jsnumber
  g_col :: jsnumber
  b_col :: jsnumber
  a_col :: jsnumber

definition divide_255 :: "jsnumber \<Rightarrow> jsnumber" where
  "divide_255 n =
     (case n of
        NaN \<Rightarrow> NaN
      | PosInfinity \<Rightarrow> PosInfinity
      | NegInfinity \<Rightarrow> NegInfinity
      | Num v \<Rightarrow> to_double (v / 255))"

text \<open>
  \<open>split(/[^0-9]+/)\<close>: the pieces between the maximal runs of characters that are not
  decimal digits, an empty piece included where such a run starts or ends the string.
  \<open>piece\<close> is the piece being read.
\<close>

definition isDecimalDigit :: "char \<Rightarrow> bool" where
  "isDecimalDigit c \<longleftrightarrow> (48 \<le> (of_char c :: nat) \<and> (of_char c :: nat) \<le> 57)"

function split_non_digits :: "string \<Rightarrow> string \<Rightarrow> string list" where
  "split_non_digits piece [] = [piece]"
| "split_non_digits piece (c # cs) =
     (if isDecimalDigit c then split_non_digits (piece @ [c]) cs
      else piece # split_non_digits [] (dropWhile (\<lambda>d. \<not> isDecimalDigit d) cs))"
  by pat_completeness auto
termination
  by (relation "measure (\<lambda>(piece, s). length s)")
     (auto simp: le_imp_less_Suc length_dropWhile_le)

definition defaultColor :: Color where
  "defaultColor = \<lparr>r_col = Num 0, g_col = Num 0, b_col = Num 0, a_col = Num 1\<rparr>"

text \<open>
  The body of \<open>getFill\<close> runs inside \<open>try\<close>, and the handler returns \<open>defaultColor\<close>.
  On a string no step of the body throws, so the handler's branch is never taken and
  the function is the body.
\<close>

definition getFill_numbers :: "string \<Rightarrow> jsnumber list" where
  "getFill_numbers style =
     map parseInt (filter (\<lambda>x. length (trim x) > 0) (split_non_digits [] style))"

definition getFill :: "string \<Rightarrow> Color" where
  "getFill style =
     (if startsWith style ''rgb''
      then (let numbers = getFill_numbers style
            in if length numbers \<ge> 3
               then \<lparr>r_col = divide_255 (numbers ! 0), g_col = divide_255 (numbers ! 1),
                     b_col = divide_255 (numbers ! 2),
                     a_col = (if length numbers \<ge> 4 then numbers ! 3 else Num 1)\<rparr>
               else defaultColor)
      else defaultColor)"

section \<open>Notions the properties are stated with\<close>

text \<open>
  The weight keywords and the integer weights as the interface description lists them,
  and the weight normalisation read literally from that description.
\<close>

definition weight_keywords :: "string list" where
  "weight_keywords = [''thin'', ''extra-light'', ''light'', ''normal'', ''medium'', ''semi-bold'',
     ''bold'', ''extra-bold'', ''black'']"

definition weight_numbers :: "(string \<times> int) list" where
  "weight_numbers = [(''100'', 100), (''200'', 200), (''300'', 300), (''400'', 400), (''500'', 500),
     (''600'', 600), (''700'', 700), (''800'', 800), (''900'', 900)]"

definition spec_ensureFontWeight :: "string \<Rightarrow> FontWeight" where
  "spec_ensureFontWeight w =
     (if trim w = [] then WeightName ''normal''
      else (case map_of weight_numbers w of
              Some n \<Rightarrow> WeightNumber n
            | None \<Rightarrow> if w \<in> set weight_keywords then WeightName w else WeightName ''normal''))"

definition keyword_or_normal :: "string \<Rightarrow> FontWeight" where
  "keyword_or_normal s = (if s \<in> set weight_keywords then WeightName s else WeightName ''normal'')"

text \<open>
  For the proofs: the weight normalisation decided on the integer that \<open>parseInt\<close>
  reads, before its conversion to a double, and the integers of the digit runs of a
  colour string.
\<close>

definition ensureFontWeight_integer :: "string \<Rightarrow> FontWeight" where
  "ensureFontWeight_integer w =
     (if trim w = [] then WeightName ''normal''
      else (case parseInt_mathInt w of
              Some n \<Rightarrow> if n \<in> set (map snd weight_numbers) then WeightNumber n
                        else keyword_or_normal (trim (toLowerCase w))
            | None \<Rightarrow> keyword_or_normal (trim (toLowerCase w))))"

definition getFill_mathInts :: "string \<Rightarrow> int option list" where
  "getFill_mathInts style =
     map parseInt_mathInt (filter (\<lambda>x. length (trim x) > 0) (split_non_digits [] style))"

text \<open>
  The rows of a text (the pieces between line feeds), the width as the largest row and
  the height as the number of line feeds plus one.
\<close>

fun spec_rows :: "string \<Rightarrow> string list" where
  "spec_rows [] = [] # []"
| "spec_rows (c # cs) =
     (if [c] = newline then [] # spec_rows cs
      else (c # hd (spec_rows cs)) # tl (spec_rows cs))"

definition spec_width :: "string \<Rightarrow> int" where
  "spec_width S = Max (set (map (\<lambda>row. int (length row)) (spec_rows S)))"

definition spec_height :: "string \<Rightarrow> int" where
  "spec_height S = int (count_list S (CHR 0x0A)) + 1"

text \<open>
  The placeholder as the design describes it: the grid tokenizer, the fixed muted style
  on every character that is not a line feed, then the run coalescer.
\<close>

definition placeholder_style :: Style where
  "placeholder_style = \<lparr>color = PLACEHOLDER, weight = ''normal''\<rparr>"

definition spec_placeholder :: "string \<Rightarrow> string option \<Rightarrow> Message" where
  "spec_placeholder placeholderText language =
     \<lparr>type_msg = ''text'', width_msg = grid_width placeholderText,
      height_msg = grid_height placeholderText, text_msg = placeholderText,
      tokens_msg = group_tokens
        (map (\<lambda>t. if text_tok t = newline then t else t\<lparr>style_tok := placeholder_style\<rparr>)
           (grid_tokens placeholderText)),
      language_msg = (case language of None \<Rightarrow> Some ''JavaScript'' | Some l \<Rightarrow> Some l)\<rparr>"

text \<open>
  The run coalescer without its accumulators. \<open>run_of\<close> is the token that \<open>flushTokens\<close>
  emits for a run, \<open>flushed\<close> what a call of \<open>flushTokens\<close> adds to \<open>newTokens\<close>, and
  \<open>group_out\<close> everything that the loop and the final flush add to \<open>newTokens\<close>, from
  a state of the loop on.
\<close>

definition run_of :: "Token list \<Rightarrow> Token" where
  "run_of currentRun =
     \<lparr>i_tok = i_tok (hd currentRun), x_tok = x_tok (hd currentRun), y_tok = y_tok (hd currentRun),
      text_tok = concat (map text_tok currentRun), style_tok = style_tok (hd currentRun)\<rparr>"

definition flushed :: "Token list \<Rightarrow> Token list" where
  "flushed currentRun = (if currentRun = [] then [] else [run_of currentRun])"

definition styles_differ :: "Token option \<Rightarrow> Token \<Rightarrow> bool" where
  "styles_differ prevToken token =
     (case prevToken of
        None \<Rightarrow> False
      | Some p \<Rightarrow> color (style_tok p) \<noteq> color (style_tok token)
                  \<or> weight (style_tok p) \<noteq> weight (style_tok token))"

fun group_out :: "Token list \<Rightarrow> Token option \<Rightarrow> Token list \<Rightarrow> Token list" where
  "group_out [] prevToken currentRun = flushed currentRun"
| "group_out (token # rest) prevToken currentRun =
     (if text_tok token = newline then flushed currentRun @ group_out rest (Some token) []
      else if styles_differ prevToken token
           then flushed currentRun @ group_out rest (Some token) [token]
           else group_out rest (Some token) (currentRun @ [token]))"

text \<open>
  The positions the tokenizer gives: \<open>cells_ok i x y cells\<close> holds when \<open>cells\<close> are
  numbered and placed as the tokenizer does it from index \<open>i\<close>, column \<open>x\<close> and row \<open>y\<close>
  on. \<open>geom\<close> is a cell without its style.
\<close>

fun cells_ok :: "int \<Rightarrow> int \<Rightarrow> int \<Rightarrow> Token list \<Rightarrow> bool" where
  "cells_ok i x y [] = True"
| "cells_ok i x y (c # cs) =
     (i_tok c = i \<and> x_tok c = x \<and> y_tok c = y \<and> length (text_tok c) = 1
      \<and> (if text_tok c = newline then cells_ok (i + 1) 0 (y + 1) cs
          else cells_ok (i + 1) (x + 1) y cs))"

definition geom :: "Token \<Rightarrow> int \<times> int \<times> int \<times> string" where
  "geom t = (i_tok t, x_tok t, y_tok t, text_tok t)"



text \<open>
  Replaying the runs of a snapshot by position: a run covers the cells of its row from
  its column on, over the length of its text, and gives them its style.
\<close>

definition covers :: "Token \<Rightarrow> Token \<Rightarrow> bool" where
  "covers run cell \<longleftrightarrow>
     y_tok cell = y_tok run \<and> x_tok run \<le> x_tok cell
     \<and> x_tok cell < x_tok run + int (length (text_tok run))"

definition replay_run :: "Token \<Rightarrow> Token list \<Rightarrow> Token list" where
  "replay_run run cells =
     map (\<lambda>cell. if covers run cell then cell\<lparr>style_tok := style_tok run\<rparr> else cell) cells"

definition replay :: "Token list \<Rightarrow> Token list \<Rightarrow> Token list" where
  "replay runs cells = fold replay_run runs cells"

text \<open>
  For the proofs: what one run does to one cell, the row, column and style of every
  cell that is not a line feed, the same triples read off the runs, and the relation
  between two runs that follow each other in the output.
\<close>

definition paint1 :: "Token \<Rightarrow> Token \<Rightarrow> Token" where
  "paint1 run cell = (if covers run cell then cell\<lparr>style_tok := style_tok run\<rparr> else cell)"

definition cell_paint :: "Token list \<Rightarrow> (int \<times> int \<times> Style) list" where
  "cell_paint cells =
     map (\<lambda>c. (y_tok c, x_tok c, style_tok c)) (filter (\<lambda>c. text_tok c \<noteq> newline) cells)"

definition run_paint :: "Token list \<Rightarrow> (int \<times> int \<times> Style) list" where
  "run_paint runs =
     concat (map (\<lambda>r. map (\<lambda>d. (y_tok r, x_tok r + int d, style_tok r)) [0..<length (text_tok r)]) runs)"

definition style_change :: "Token \<Rightarrow> Token \<Rightarrow> bool" where
  "style_change a b \<longleftrightarrow>
     (y_tok a = y_tok b \<longrightarrow>
        (color (style_tok a) \<noteq> color (style_tok b) \<or> weight (style_tok a) \<noteq> weight (style_tok b))
        \<and> i_tok b = i_tok a + int (length (text_tok a))
        \<and> x_tok b = x_tok a + int (length (text_tok a)))"

section \<open>Sync bridge\<close>

text \<open>
  C3. For every incoming message of type "text": when its text is empty the stored state
  becomes the placeholder snapshot of "Type code..." for the message's language, which is
  the snapshot for "JavaScript" when the language is missing; otherwise the stored state
  becomes the message itself, whatever the state was before.
\<close>

theorem onmessage_apply:
  "type_msg msg = ''text'' \<Longrightarrow>
     onmessage tokens msg =
       (if text_msg msg = [] then placeholderTokens PLACEHOLDER_TEXT (language_msg msg) else msg)
     \<and> placeholderTokens PLACEHOLDER_TEXT None = placeholderTokens PLACEHOLDER_TEXT (Some ''JavaScript'')
     \<and> language_msg (placeholderTokens PLACEHOLDER_TEXT (language_msg msg)) =
         (case language_msg msg of None \<Rightarrow> Some ''JavaScript'' | Some l \<Rightarrow> Some l)"
  by (simp add: onmessage_def placeholderTokens_def split: prod.splits option.splits)

theorem onmessage_apply_witness:
  "type_msg \<lparr>type_msg = ''text'', width_msg = 7, height_msg = 3, text_msg = [], tokens_msg = [],
             language_msg = None\<rparr> = ''text''
   \<and> onmessage (placeholderTokens PLACEHOLDER_TEXT (Some ''Python''))
        \<lparr>type_msg = ''text'', width_msg = 7, height_msg = 3, text_msg = [], tokens_msg = [],
         language_msg = None\<rparr>
       = placeholderTokens PLACEHOLDER_TEXT (Some ''JavaScript'')"
  using onmessage_apply [of "\<lparr>type_msg = ''text'', width_msg = 7, height_msg = 3, text_msg = [],
      tokens_msg = [], language_msg = None\<rparr>" "placeholderTokens PLACEHOLDER_TEXT (Some ''Python'')"]
  by simp

section \<open>Conversion to a double\<close>

lemma round_half_even_int [simp]: "round_half_even (of_int k) = k"
  by (simp add: round_half_even_def)

lemma round_half_even_ge: "\<lfloor>m\<rfloor> \<le> round_half_even m"
  by (simp add: round_half_even_def Let_def)

lemma round_half_even_le: "round_half_even m \<le> \<lfloor>m\<rfloor> + 1"
  by (simp add: round_half_even_def Let_def)

lemma binade_bounds:
  assumes "1 \<le> n"
  shows "\<exists>e::nat. binade (of_int n) = int e \<and> 2 ^ e \<le> n \<and> n < 2 ^ (e + 1)"
proof -
  let ?k = "floorlog 2 (nat n)"
  have pos: "0 < nat n" using assms by simp
  from floorlog_bounds[OF pos, of 2] have b: "2 ^ (?k - 1) \<le> nat n" "nat n < 2 ^ ?k" by simp_all
  have k1: "1 \<le> ?k" using b(2) pos by (cases ?k) simp_all
  have "binade (of_int n) = int ?k - 1" using assms by (simp add: binade_def)
  then have 1: "binade (of_int n) = int (?k - 1)" using k1 by simp
  have "int (2 ^ (?k - 1)) \<le> int (nat n)" using b(1) by (simp only: of_nat_le_iff)
  then have 2: "(2::int) ^ (?k - 1) \<le> n" using assms by simp
  have "int (nat n) < int (2 ^ ?k)" using b(2) by (simp only: of_nat_less_iff)
  then have "n < (2::int) ^ ?k" using assms by simp
  then have 3: "n < (2::int) ^ (?k - 1 + 1)" using k1 by simp
  from 1 2 3 show ?thesis by blast
qed


lemma overflow_bound: "(2::real) ^ 53 < double_limit"
  unfolding double_limit_def by (rule power_strict_increasing) simp_all

lemma double_limit_pos: "0 < double_limit"
  unfolding double_limit_def by (rule zero_less_power) simp

lemma to_double_exact:
  assumes "0 \<le> n" "n < 2 ^ 53"
  shows "to_double (of_int n) = Num (of_int n)"
proof (cases "n = 0")
  case True then show ?thesis by (simp add: to_double_def)
next
  case False
  with assms have "1 \<le> n" by simp
  from binade_bounds[OF this] obtain e :: nat where
    e: "binade (of_int n) = int e" "2 ^ e \<le> n" "n < 2 ^ (e + 1)" by blast
  have "(2::int) ^ e < 2 ^ 53" using e(2) assms(2) by linarith
  then have "e < 53" by (rule power_less_imp_less_exp[rotated]) simp
  then have le: "e \<le> 52" by simp
  define k where "k = 52 - e"
  have ex: "max (binade (of_int n) - 52) (- 1074) = - int k"
    using le by (simp add: e(1) k_def)
  have q: "(2::real) powi (- int k) = 1 / 2 ^ k"
    by (simp add: power_int_minus field_simps)
  have m: "real_of_int n / (1 / 2 ^ k) = of_int (n * 2 ^ k)" by simp
  have v: "of_int (round_half_even (real_of_int n / (1 / 2 ^ k))) * (1 / 2 ^ k) = real_of_int n"
    unfolding m round_half_even_int by simp
  have small: "real_of_int n < double_limit"
  proof -
    have "real_of_int n < 2 ^ 53" using assms(2) by (metis of_int_less_iff of_int_numeral of_int_power)
    with overflow_bound show ?thesis by linarith
  qed
  have nonneg: "0 \<le> real_of_int n" using assms(1) by simp
  have nn: "\<not> real_of_int n \<le> - (double_limit)"
  proof -
    note double_limit_pos
    with nonneg show ?thesis by linarith
  qed
  show ?thesis
    unfolding to_double_def Let_def ex q v using False small nn by simp
qed

lemma to_double_big:
  assumes "2 ^ 53 \<le> n"
  shows "to_double (of_int n) = PosInfinity \<or> (\<exists>v. to_double (of_int n) = Num v \<and> 2 ^ 53 \<le> v)"
proof -
  have "1 \<le> n"
  proof -
    have "(1::int) \<le> 2 ^ 53" by simp
    with assms show ?thesis by linarith
  qed
  from binade_bounds[OF this] obtain e :: nat where
    e: "binade (of_int n) = int e" "2 ^ e \<le> n" "n < 2 ^ (e + 1)" by blast
  have "(2::int) ^ 53 < 2 ^ (e + 1)" using e(3) assms by linarith
  then have "53 < e + 1" by (rule power_less_imp_less_exp[rotated]) simp
  then have ge: "53 \<le> e" by simp
  define k where "k = e - 52"
  have ek: "e = 52 + k" using ge by (simp add: k_def)
  have ex: "max (binade (of_int n) - 52) (- 1074) = int k"
    using ge by (simp add: e(1) k_def)
  have q: "(2::real) powi (int k) = 2 ^ k" by simp
  define m where "m = real_of_int n / 2 ^ k"
  have "(2::real) ^ e \<le> real_of_int n" using e(2) by (metis of_int_le_iff of_int_numeral of_int_power)
  then have "(2::real) ^ 52 * 2 ^ k \<le> real_of_int n" by (simp add: ek power_add)
  then have mge: "(2::real) ^ 52 \<le> m" by (simp add: m_def field_simps)
  have "(2::int) ^ 52 \<le> \<lfloor>m\<rfloor>"
  proof -
    have "of_int ((2::int) ^ 52) \<le> m" using mge by simp
    then show ?thesis by (simp only: le_floor_iff)
  qed
  with round_half_even_ge[of m] have r: "(2::int) ^ 52 \<le> round_half_even m" by linarith
  define v where "v = of_int (round_half_even m) * (2::real) ^ k"
  have "(2::real) ^ 52 \<le> of_int (round_half_even m)"
    using r by (metis of_int_le_iff of_int_numeral of_int_power)
  then have "(2::real) ^ 52 * 2 ^ k \<le> v" unfolding v_def by (intro mult_right_mono) simp_all
  then have "(2::real) ^ e \<le> v" by (simp add: ek power_add)
  moreover have "(2::real) ^ 53 \<le> 2 ^ e" using ge by (intro power_increasing) simp_all
  ultimately have vge: "(2::real) ^ 53 \<le> v" by linarith
  have vpos: "\<not> v \<le> - (double_limit)"
  proof -
    have "(0::real) < 2 ^ 53" by simp
    note this double_limit_pos
    with vge show ?thesis by linarith
  qed
  have n0: "real_of_int n \<noteq> 0" using \<open>1 \<le> n\<close> by simp
  have "to_double (of_int n) = (if double_limit \<le> v then PosInfinity else Num v)"
    unfolding to_double_def Let_def ex q using n0 vpos by (simp add: v_def m_def)
  with vge show ?thesis by (cases "double_limit \<le> v") simp_all
qed

lemma to_double_neg:
  assumes "n < 0"
  shows "to_double (of_int n) = NegInfinity \<or> (\<exists>v. to_double (of_int n) = Num v \<and> v \<le> 0)"
proof -
  define q where "q = (2::real) powi (max (binade (of_int n) - 52) (- 1074))"
  have qpos: "0 < q" unfolding q_def by (simp add: zero_less_power_int)
  define m where "m = real_of_int n / q"
  have "m < 0" using assms qpos by (simp add: m_def field_simps)
  then have "\<lfloor>m\<rfloor> \<le> - 1" by (simp add: floor_le_iff)
  with round_half_even_le[of m] have "round_half_even m \<le> 0" by linarith
  define v where "v = of_int (round_half_even m) * q"
  have vle: "v \<le> 0" unfolding v_def using \<open>round_half_even m \<le> 0\<close> qpos
    by (simp add: mult_le_0_iff)
  have np: "\<not> double_limit \<le> v"
  proof -
    note double_limit_pos
    with vle show ?thesis by linarith
  qed
  have n0: "real_of_int n \<noteq> 0" using assms by simp
  have "to_double (of_int n) = (if v \<le> - (double_limit) then NegInfinity else Num v)"
    unfolding to_double_def Let_def using n0 np by (simp add: v_def m_def q_def)
  with vle show ?thesis by (cases "v \<le> - (double_limit)") simp_all
qed

lemma to_double_nat: "\<exists>x. to_double (real v) = PosInfinity \<or> to_double (real v) = Num x"
  using to_double_exact[of "int v"] to_double_big[of "int v"]
  by (cases "int v < 2 ^ 53") (auto simp: not_less)

lemma to_double_round_up_example: "to_double 9007199254740993 = Num 9007199254740992"
proof -
  have b: "binade 9007199254740993 = 53"
  proof -
    from binade_bounds[of 9007199254740993] obtain e :: nat where
      e: "binade (of_int 9007199254740993) = int e" "2 ^ e \<le> (9007199254740993::int)"
         "(9007199254740993::int) < 2 ^ (e + 1)" by auto
    have "(2::int) ^ e < 2 ^ 54" using e(2) by simp
    then have "e < 54" by (rule power_less_imp_less_exp[rotated]) simp
    moreover have "(2::int) ^ 53 < 2 ^ (e + 1)" using e(3) by simp
    then have "53 < e + 1" by (rule power_less_imp_less_exp[rotated]) simp
    ultimately have "e = 53" by simp
    with e(1) show ?thesis by simp
  qed
  have r: "round_half_even (9007199254740993 / 2) = 4503599627370496"
    by (simp add: round_half_even_def Let_def)
  have small: "(9007199254740992::real) < double_limit"
  proof -
    have "(9007199254740992::real) = 2 ^ 53" by simp
    with overflow_bound show ?thesis by (simp only:)
  qed
  have nn: "\<not> (9007199254740992::real) \<le> - (double_limit)"
  proof -
    note double_limit_pos
    then show ?thesis by linarith
  qed
  show ?thesis
    unfolding to_double_def Let_def b using small nn by (simp add: r)
qed

section \<open>Weight normalisation\<close>

lemma valid_weight_iff:
  "(js_rem (of_int n) 100 = 0 \<and> (0::real) < of_int n \<and> (of_int n :: real) < 1000)
     \<longleftrightarrow> n \<in> set [100, 200, 300, 400, 500, 600, 700, 800, 900]"
proof -
  have "js_rem (of_int n) 100 = of_int (n mod 100)" if "n > 0"
  proof -
    have "\<lfloor>real_of_int n / real_of_int 100\<rfloor> = n div 100" by (rule floor_divide_of_int_eq)
    then have f: "\<lfloor>real_of_int n / 100\<rfloor> = n div 100" by simp
    have "real_of_int n - 100 * real_of_int (n div 100) = real_of_int (n - 100 * (n div 100))"
      by simp
    also have "n - 100 * (n div 100) = n mod 100" by (simp add: minus_mult_div_eq_mod)
    finally show ?thesis using that by (simp add: js_rem_def f)
  qed
  then have "n > 0 \<Longrightarrow> js_rem (of_int n) 100 = 0 \<longleftrightarrow> n mod 100 = 0" by simp
  moreover have "n > 0 \<and> n < 1000 \<and> n mod 100 = 0 \<longleftrightarrow> n \<in> set [100, 200, 300, 400, 500, 600, 700, 800, 900]"
    by (simp; presburger)
  ultimately show ?thesis by auto
qed

lemma name_iff: "ensureFontWeight_name s = keyword_or_normal s"
  by (simp add: ensureFontWeight_name_def keyword_or_normal_def weight_keywords_def)

lemma weight_of_double:
  "(case to_double (of_int n) of
      Num v \<Rightarrow> if js_rem v 100 = 0 \<and> v > 0 \<and> v < 1000 then WeightNumber \<lfloor>v\<rfloor> else other
    | _ \<Rightarrow> other)
   = (if n \<in> set [100, 200, 300, 400, 500, 600, 700, 800, 900] then WeightNumber n else other)"
proof -
  consider "n < 0" | "0 \<le> n" "n < 2 ^ 53" | "2 ^ 53 \<le> n" by linarith
  then show ?thesis
  proof cases
    case 1
    then have out: "n \<notin> set [100, 200, 300, 400, 500, 600, 700, 800, 900]" by auto
    from to_double_neg[OF 1] show ?thesis
    proof
      assume "to_double (of_int n) = NegInfinity"
      with out show ?thesis by simp
    next
      assume "\<exists>v. to_double (of_int n) = Num v \<and> v \<le> 0"
      then obtain v where "to_double (of_int n) = Num v" "v \<le> 0" by blast
      with out show ?thesis by simp
    qed
  next
    case 2
    from to_double_exact[OF 2] valid_weight_iff[of n] show ?thesis by simp
  next
    case 3
    have "(1000::int) < 2 ^ 53" by simp
    with 3 have out: "n \<notin> set [100, 200, 300, 400, 500, 600, 700, 800, 900]" by auto
    from to_double_big[OF 3] show ?thesis
    proof
      assume "to_double (of_int n) = PosInfinity"
      with out show ?thesis by simp
    next
      assume "\<exists>v. to_double (of_int n) = Num v \<and> 2 ^ 53 \<le> v"
      then obtain v where v: "to_double (of_int n) = Num v" "2 ^ 53 \<le> v" by blast
      have "(1000::real) < 2 ^ 53" by simp
      with v(2) have "\<not> v < 1000" by linarith
      with v(1) out show ?thesis by simp
    qed
  qed
qed

lemma ensureFontWeight_integer_eq: "ensureFontWeight w = ensureFontWeight_integer w"
proof (cases "parseInt_mathInt w")
  case None
  then show ?thesis
    by (simp add: ensureFontWeight_def ensureFontWeight_integer_def parseInt_def name_iff)
next
  case (Some n)
  have set_eq: "set (map snd weight_numbers) = set [100, 200, 300, 400, 500, 600, 700, 800, 900]"
    by (simp add: weight_numbers_def)
  show ?thesis
    unfolding ensureFontWeight_def ensureFontWeight_integer_def parseInt_def Some option.simps
      weight_of_double set_eq name_iff
    by simp
qed

lemma kw_eval: "w \<in> set weight_keywords \<Longrightarrow> ensureFontWeight w = WeightName w"
  unfolding weight_keywords_def ensureFontWeight_integer_eq
  apply (simp only: set_simps insert_iff empty_iff)
  apply (elim disjE)
  by (simp_all; code_simp)+

lemma num_eval: "(w, n) \<in> set weight_numbers \<Longrightarrow> ensureFontWeight w = WeightNumber n"
  unfolding weight_numbers_def ensureFontWeight_integer_eq
  apply (simp only: set_simps insert_iff empty_iff prod.inject)
  apply (elim disjE conjE)
  by (simp_all; code_simp)+

text \<open>
  C6, as the description states it, fails: \<open>300px\<close> is not blank, not one of the nine
  integer strings and not a keyword, and the widget returns the number 300 for it.
\<close>

theorem ensureFontWeight_counterexample:
  "trim ''300px'' \<noteq> [] \<and> map_of weight_numbers ''300px'' = None
   \<and> ''300px'' \<notin> set weight_keywords
   \<and> spec_ensureFontWeight ''300px'' = WeightName ''normal''
   \<and> ensureFontWeight ''300px'' = WeightNumber 300"
  unfolding ensureFontWeight_integer_eq by code_simp

text \<open>
  C6, amended. A blank string gives "normal". Otherwise the integer that \<open>parseInt\<close> reads
  at the start of the string (white space, sign and the prefix 0x allowed before it,
  anything after it ignored) is returned when it is one of 100, 200, ..., 900; the
  conversion of that integer to a double changes none of these and brings no other
  integer among them. Otherwise the string is lower-cased and trimmed, and returned when
  it is one of the nine keywords. Everything else gives "normal". In particular each of
  the nine integer strings gives its integer and each keyword gives itself.
\<close>

theorem ensureFontWeight_amended:
  "ensureFontWeight w =
     (if trim w = [] then WeightName ''normal''
      else (case parseInt_mathInt w of
              Some n \<Rightarrow> if n \<in> set (map snd weight_numbers) then WeightNumber n
                        else keyword_or_normal (trim (toLowerCase w))
            | None \<Rightarrow> keyword_or_normal (trim (toLowerCase w))))
   \<and> (\<forall>(s, n) \<in> set weight_numbers. ensureFontWeight s = WeightNumber n)
   \<and> (\<forall>k \<in> set weight_keywords. ensureFontWeight k = WeightName k)"
proof (intro conjI)
  show "ensureFontWeight w =
     (if trim w = [] then WeightName ''normal''
      else (case parseInt_mathInt w of
              Some n \<Rightarrow> if n \<in> set (map snd weight_numbers) then WeightNumber n
                        else keyword_or_normal (trim (toLowerCase w))
            | None \<Rightarrow> keyword_or_normal (trim (toLowerCase w))))"
    by (simp only: ensureFontWeight_integer_eq ensureFontWeight_integer_def)
  show "\<forall>(s, n) \<in> set weight_numbers. ensureFontWeight s = WeightNumber n"
    using num_eval by blast
  show "\<forall>k \<in> set weight_keywords. ensureFontWeight k = WeightName k"
    using kw_eval by blast
qed

theorem ensureFontWeight_amended_witness:
  "''bold'' \<in> set weight_keywords \<and> (''700'', 700) \<in> set weight_numbers
   \<and> ensureFontWeight ''bold'' = WeightName ''bold''
   \<and> ensureFontWeight ''700'' = WeightNumber 700"
  using ensureFontWeight_amended [of "''bold''", THEN conjunct2]
  by (simp add: weight_keywords_def weight_numbers_def)

section \<open>Colour parsing\<close>

lemma split_digits_only:
  "\<forall>c \<in> set piece. isDecimalDigit c \<Longrightarrow> p \<in> set (split_non_digits piece s) \<Longrightarrow>
     \<forall>c \<in> set p. isDecimalDigit c"
proof (induction piece s rule: split_non_digits.induct)
  case (1 piece)
  then show ?case by simp
next
  case (2 piece c cs)
  show ?case
  proof (cases "isDecimalDigit c")
    case True
    with "2.IH"(1) "2.prems" show ?thesis by simp
  next
    case False
    with "2.prems"(2) have "p = piece \<or> p \<in> set (split_non_digits [] (dropWhile (\<lambda>d. \<not> isDecimalDigit d) cs))"
      by simp
    then show ?thesis
    proof
      assume "p = piece" with "2.prems"(1) show ?thesis by simp
    next
      assume "p \<in> set (split_non_digits [] (dropWhile (\<lambda>d. \<not> isDecimalDigit d) cs))"
      with "2.IH"(2)[OF False] show ?thesis by simp
    qed
  qed
qed

lemma digit_facts:
  "isDecimalDigit c \<Longrightarrow> \<not> isWhiteSpace c \<and> c \<noteq> CHR ''-'' \<and> c \<noteq> CHR ''+'' \<and> c \<noteq> CHR ''x''
      \<and> c \<noteq> CHR ''X'' \<and> isRadixDigit 10 c"
  by (auto simp: isDecimalDigit_def isWhiteSpace_def isRadixDigit_def digitValue_def)

lemma digitsValue_nonneg: "0 \<le> digitsValue R Z"
proof -
  have "0 \<le> a \<Longrightarrow>
      0 \<le> foldl (\<lambda>acc c. acc * int R + int (case digitValue c of None \<Rightarrow> 0 | Some d \<Rightarrow> d)) a Z"
    for a
    by (induction Z arbitrary: a) simp_all
  then show ?thesis by (simp add: digitsValue_def)
qed

lemma parseInt_mathInt_digits:
  assumes "s \<noteq> []" "\<forall>c \<in> set s. isDecimalDigit c"
  shows "parseInt_mathInt s = Some (digitsValue 10 s)"
proof -
  obtain c cs where s: "s = c # cs" using assms(1) by (cases s) auto
  have c: "isDecimalDigit c" using assms(2) s by simp
  have d: "dropWhile isWhiteSpace s = s" using digit_facts[OF c] s by simp
  have nohex: "\<not> (take 2 s = ''0x'' \<or> take 2 s = ''0X'')"
  proof (cases cs)
    case Nil then show ?thesis using s by simp
  next
    case (Cons e es)
    then have "isDecimalDigit e" using assms(2) s by simp
    from digit_facts[OF this] show ?thesis using s Cons by simp
  qed
  have tw: "takeWhile (isRadixDigit 10) s = s"
    using assms(2) digit_facts by (simp add: takeWhile_eq_all_conv)
  have h: "hd s \<noteq> CHR ''-''" "hd s \<noteq> CHR ''+''" using digit_facts[OF c] s by simp_all
  show ?thesis
    unfolding parseInt_mathInt_def Let_def d
    by (simp only: nohex h tw assms(1) simp_thms if_True if_False not_False_eq_True option.simps)
qed

lemma getFill_numbers_mathInts:
  "getFill_numbers s =
     map (\<lambda>m. case m of None \<Rightarrow> NaN | Some n \<Rightarrow> to_double (of_int n)) (getFill_mathInts s)"
  by (simp add: getFill_numbers_def getFill_mathInts_def parseInt_def comp_def)

lemma getFill_mathInts_nat: "m \<in> set (getFill_mathInts s) \<Longrightarrow> \<exists>v::nat. m = Some (int v)"
proof -
  assume "m \<in> set (getFill_mathInts s)"
  then obtain p where p: "p \<in> set (split_non_digits [] s)" "length (trim p) > 0"
    "m = parseInt_mathInt p"
    by (auto simp: getFill_mathInts_def)
  have dg: "\<forall>c \<in> set p. isDecimalDigit c" using split_digits_only[OF _ p(1)] by simp
  have "p \<noteq> []" using p(2) by (auto simp: trim_def)
  from parseInt_mathInt_digits[OF this dg] p(3)
  have "m = Some (int (nat (digitsValue 10 p)))" using digitsValue_nonneg[of 10 p] by simp
  then show ?thesis by blast
qed

lemma to_double_small [simp]: "to_double 0 = Num 0" "to_double 1 = Num 1"
  using to_double_exact[of 0] to_double_exact[of 1] by simp_all

text \<open>
  C7. A colour string that does not start with "rgb", or that holds fewer than three runs
  of digits, gives opaque black. \<open>getFill\<close> is a total function of the string: the model
  has no error result, since no step of its body can throw on a string and its handler
  returns the same default.
\<close>

theorem getFill_fallback:
  "\<not> startsWith s ''rgb'' \<or> length (getFill_numbers s) < 3 \<Longrightarrow>
     getFill s = \<lparr>r_col = Num 0, g_col = Num 0, b_col = Num 0, a_col = Num 1\<rparr>"
  by (auto simp: getFill_def defaultColor_def Let_def)

theorem getFill_fallback_witness:
  "\<not> startsWith ''#ff0000'' ''rgb''
   \<and> getFill ''#ff0000'' = \<lparr>r_col = Num 0, g_col = Num 0, b_col = Num 0, a_col = Num 1\<rparr>
   \<and> startsWith ''rgb(1, 2)'' ''rgb'' \<and> getFill_numbers ''rgb(1, 2)'' = [Num 1, Num 2]
   \<and> getFill ''rgb(1, 2)'' = \<lparr>r_col = Num 0, g_col = Num 0, b_col = Num 0, a_col = Num 1\<rparr>"
proof -
  have m: "getFill_mathInts ''rgb(1, 2)'' = [Some 1, Some 2]"
    by code_simp
  have n: "getFill_numbers ''rgb(1, 2)'' = [Num 1, Num 2]"
    using to_double_exact[of 2] by (simp add: getFill_numbers_mathInts m)
  then have l: "length (getFill_numbers ''rgb(1, 2)'') < 3"
    by simp
  have a: "\<not> startsWith ''#ff0000'' ''rgb''"
    by (simp add: startsWith_def)
  have b: "startsWith ''rgb(1, 2)'' ''rgb''"
    by (simp add: startsWith_def)
  from getFill_fallback [of "''#ff0000''"] getFill_fallback [of "''rgb(1, 2)''"] n l a b
  show ?thesis by simp
qed

text \<open>
  C10. When the string starts with "rgb" and holds at least four runs of digits, each
  of the first three channels is the number parsed from its run divided by 255 (a
  division of doubles), and the alpha is the number parsed from the fourth run as it
  stands, neither divided nor clamped. The number parsed from a run is the double nearest
  to the integer the run denotes, which is that integer below \<open>2^53\<close>. A fractional
  alpha is two runs of digits, so "rgb(255, 0, 0, 0.5)" has alpha 0.
\<close>

theorem getFill_alpha_verbatim:
  "(startsWith s ''rgb'' \<and> 4 \<le> length (getFill_numbers s) \<longrightarrow>
      (\<exists>v0 v1 v2 v3 :: nat.
          take 4 (getFill_mathInts s) = [Some (int v0), Some (int v1), Some (int v2), Some (int v3)]
        \<and> take 4 (getFill_numbers s) =
            [to_double (real v0), to_double (real v1), to_double (real v2), to_double (real v3)]
        \<and> getFill s =
            \<lparr>r_col = divide_255 (to_double (real v0)), g_col = divide_255 (to_double (real v1)),
             b_col = divide_255 (to_double (real v2)), a_col = to_double (real v3)\<rparr>
        \<and> (v3 < 2 ^ 53 \<longrightarrow> a_col (getFill s) = Num (real v3))
        \<and> (v0 < 2 ^ 53 \<longrightarrow> r_col (getFill s) = to_double (real v0 / 255))
        \<and> (v1 < 2 ^ 53 \<longrightarrow> g_col (getFill s) = to_double (real v1 / 255))
        \<and> (v2 < 2 ^ 53 \<longrightarrow> b_col (getFill s) = to_double (real v2 / 255))))
   \<and> getFill_numbers ''rgb(255, 0, 0, 0.5)'' = [Num 255, Num 0, Num 0, Num 0, Num 5]
   \<and> getFill ''rgb(255, 0, 0, 0.5)'' =
       \<lparr>r_col = Num 1, g_col = Num 0, b_col = Num 0, a_col = Num 0\<rparr>"
proof (intro conjI impI)
  assume "startsWith s ''rgb'' \<and> 4 \<le> length (getFill_numbers s)"
  then have st: "startsWith s ''rgb''" and len: "4 \<le> length (getFill_mathInts s)"
    by (simp_all add: getFill_numbers_mathInts)
  obtain a b c d rest where ms: "getFill_mathInts s = a # b # c # d # rest"
    using len by (auto simp: Suc_le_length_iff numeral_eq_Suc)
  have "\<forall>m \<in> set (getFill_mathInts s). \<exists>v::nat. m = Some (int v)"
    using getFill_mathInts_nat by blast
  then obtain v0 v1 v2 v3 :: nat where
    v: "a = Some (int v0)" "b = Some (int v1)" "c = Some (int v2)" "d = Some (int v3)"
    unfolding ms by auto
  have ns: "getFill_numbers s =
      to_double (real v0) # to_double (real v1) # to_double (real v2) # to_double (real v3)
        # map (\<lambda>m. case m of None \<Rightarrow> NaN | Some n \<Rightarrow> to_double (of_int n)) rest"
    by (simp add: getFill_numbers_mathInts ms v)
  have g: "getFill s =
            \<lparr>r_col = divide_255 (to_double (real v0)), g_col = divide_255 (to_double (real v1)),
             b_col = divide_255 (to_double (real v2)), a_col = to_double (real v3)\<rparr>"
    using st by (simp add: getFill_def ns)
  have ex: "to_double (real k) = Num (real k)" if "k < 2 ^ 53" for k :: nat
  proof -
    have "int k < 2 ^ 53" using that by (metis of_nat_less_iff of_nat_numeral of_nat_power)
    from to_double_exact[OF _ this] show ?thesis by simp
  qed
  have dv: "divide_255 (to_double (real k)) = to_double (real k / 255)" if "k < 2 ^ 53" for k :: nat
    by (simp add: ex[OF that] divide_255_def)
  show "\<exists>v0 v1 v2 v3 :: nat.
          take 4 (getFill_mathInts s) = [Some (int v0), Some (int v1), Some (int v2), Some (int v3)]
        \<and> take 4 (getFill_numbers s) =
            [to_double (real v0), to_double (real v1), to_double (real v2), to_double (real v3)]
        \<and> getFill s =
            \<lparr>r_col = divide_255 (to_double (real v0)), g_col = divide_255 (to_double (real v1)),
             b_col = divide_255 (to_double (real v2)), a_col = to_double (real v3)\<rparr>
        \<and> (v3 < 2 ^ 53 \<longrightarrow> a_col (getFill s) = Num (real v3))
        \<and> (v0 < 2 ^ 53 \<longrightarrow> r_col (getFill s) = to_double (real v0 / 255))
        \<and> (v1 < 2 ^ 53 \<longrightarrow> g_col (getFill s) = to_double (real v1 / 255))
        \<and> (v2 < 2 ^ 53 \<longrightarrow> b_col (getFill s) = to_double (real v2 / 255))"
  proof (rule exI[of _ v0], rule exI[of _ v1], rule exI[of _ v2], rule exI[of _ v3],
      intro conjI impI)
    show "take 4 (getFill_mathInts s) = [Some (int v0), Some (int v1), Some (int v2), Some (int v3)]"
      by (simp add: ms v)
    show "take 4 (getFill_numbers s) =
            [to_double (real v0), to_double (real v1), to_double (real v2), to_double (real v3)]"
      by (simp add: ns)
    show "getFill s =
            \<lparr>r_col = divide_255 (to_double (real v0)), g_col = divide_255 (to_double (real v1)),
             b_col = divide_255 (to_double (real v2)), a_col = to_double (real v3)\<rparr>"
      by (rule g)
    show "a_col (getFill s) = Num (real v3)" if "v3 < 2 ^ 53" using ex[OF that] by (simp add: g)
    show "r_col (getFill s) = to_double (real v0 / 255)" if "v0 < 2 ^ 53" using dv[OF that] by (simp add: g)
    show "g_col (getFill s) = to_double (real v1 / 255)" if "v1 < 2 ^ 53" using dv[OF that] by (simp add: g)
    show "b_col (getFill s) = to_double (real v2 / 255)" if "v2 < 2 ^ 53" using dv[OF that] by (simp add: g)
  qed
next
  have m: "getFill_mathInts ''rgb(255, 0, 0, 0.5)'' = [Some 255, Some 0, Some 0, Some 0, Some 5]"
    by code_simp
  show n: "getFill_numbers ''rgb(255, 0, 0, 0.5)'' = [Num 255, Num 0, Num 0, Num 0, Num 5]"
    using to_double_exact[of 255] to_double_exact[of 5] by (simp add: getFill_numbers_mathInts m)
  show "getFill ''rgb(255, 0, 0, 0.5)'' =
       \<lparr>r_col = Num 1, g_col = Num 0, b_col = Num 0, a_col = Num 0\<rparr>"
    by (simp add: getFill_def n startsWith_def divide_255_def)
qed

theorem getFill_alpha_verbatim_witness:
  "startsWith ''rgb(0, 0, 0, 9007199254740993)'' ''rgb''
   \<and> getFill_numbers ''rgb(0, 0, 0, 9007199254740993)'' = [Num 0, Num 0, Num 0, Num 9007199254740992]
   \<and> getFill ''rgb(0, 0, 0, 9007199254740993)'' =
       \<lparr>r_col = Num 0, g_col = Num 0, b_col = Num 0, a_col = Num 9007199254740992\<rparr>
   \<and> startsWith ''rgb(10, 20, 30, 200)'' ''rgb''
   \<and> getFill_numbers ''rgb(10, 20, 30, 200)'' = [Num 10, Num 20, Num 30, Num 200]
   \<and> a_col (getFill ''rgb(10, 20, 30, 200)'') = Num 200"
proof -
  have m: "getFill_mathInts ''rgb(0, 0, 0, 9007199254740993)'' =
      [Some 0, Some 0, Some 0, Some 9007199254740993]"
    by code_simp
  have n: "getFill_numbers ''rgb(0, 0, 0, 9007199254740993)'' =
      [Num 0, Num 0, Num 0, Num 9007199254740992]"
    by (simp add: getFill_numbers_mathInts m to_double_round_up_example)
  have s: "startsWith ''rgb(0, 0, 0, 9007199254740993)'' ''rgb''"
    by (simp add: startsWith_def)
  have h: "startsWith ''rgb(0, 0, 0, 9007199254740993)'' ''rgb''
      \<and> 4 \<le> length (getFill_numbers ''rgb(0, 0, 0, 9007199254740993)'')"
    by (simp add: s n)
  from getFill_alpha_verbatim [of "''rgb(0, 0, 0, 9007199254740993)''", THEN conjunct1,
      rule_format, OF h]
  obtain v0 v1 v2 v3 :: nat where
    tk: "take 4 (getFill_numbers ''rgb(0, 0, 0, 9007199254740993)'') =
          [to_double (real v0), to_double (real v1), to_double (real v2), to_double (real v3)]"
    and g: "getFill ''rgb(0, 0, 0, 9007199254740993)'' =
            \<lparr>r_col = divide_255 (to_double (real v0)), g_col = divide_255 (to_double (real v1)),
             b_col = divide_255 (to_double (real v2)), a_col = to_double (real v3)\<rparr>"
    by blast
  have "[to_double (real v0), to_double (real v1), to_double (real v2), to_double (real v3)] =
      [Num 0, Num 0, Num 0, Num 9007199254740992]"
    using tk[symmetric] by (simp add: n)
  then have e: "to_double (real v0) = Num 0" "to_double (real v1) = Num 0"
    "to_double (real v2) = Num 0" "to_double (real v3) = Num 9007199254740992"
    by simp_all
  have g1: "getFill ''rgb(0, 0, 0, 9007199254740993)'' =
       \<lparr>r_col = Num 0, g_col = Num 0, b_col = Num 0, a_col = Num 9007199254740992\<rparr>"
    unfolding g e by (simp add: divide_255_def)
  have m2: "getFill_mathInts ''rgb(10, 20, 30, 200)'' = [Some 10, Some 20, Some 30, Some 200]"
    by code_simp
  have n2: "getFill_numbers ''rgb(10, 20, 30, 200)'' = [Num 10, Num 20, Num 30, Num 200]"
    using to_double_exact[of 10] to_double_exact[of 20] to_double_exact[of 30] to_double_exact[of 200]
    by (simp add: getFill_numbers_mathInts m2)
  have s2: "startsWith ''rgb(10, 20, 30, 200)'' ''rgb''"
    by (simp add: startsWith_def)
  have h2: "startsWith ''rgb(10, 20, 30, 200)'' ''rgb''
      \<and> 4 \<le> length (getFill_numbers ''rgb(10, 20, 30, 200)'')"
    by (simp add: s2 n2)
  from getFill_alpha_verbatim [of "''rgb(10, 20, 30, 200)''", THEN conjunct1, rule_format, OF h2]
  obtain w0 w1 w2 w3 :: nat where
    tk2: "take 4 (getFill_numbers ''rgb(10, 20, 30, 200)'') =
          [to_double (real w0), to_double (real w1), to_double (real w2), to_double (real w3)]"
    and g2: "getFill ''rgb(10, 20, 30, 200)'' =
            \<lparr>r_col = divide_255 (to_double (real w0)), g_col = divide_255 (to_double (real w1)),
             b_col = divide_255 (to_double (real w2)), a_col = to_double (real w3)\<rparr>"
    by blast
  have "[to_double (real w0), to_double (real w1), to_double (real w2), to_double (real w3)] =
      [Num 10, Num 20, Num 30, Num 200]"
    using tk2[symmetric] by (simp add: n2)
  then have "to_double (real w3) = Num 200" by simp
  then have a2: "a_col (getFill ''rgb(10, 20, 30, 200)'') = Num 200" by (simp add: g2)
  from s n g1 s2 n2 a2 show ?thesis by blast
qed

section \<open>Span applier\<close>

lemma grid_loop_length:
  "length (fst (grid_loop s i x y w acc)) = length acc + length s"
  by (induction s arbitrary: i x y w acc) (simp_all add: Let_def)

lemma grid_tokens_length: "length (grid_tokens s) = length s"
  by (simp add: grid_tokens_def grid_def grid_loop_length)

lemma color_range_ok:
  "0 \<le> i \<Longrightarrow> to \<le> int (length tokens) \<Longrightarrow>
     \<exists>tokens' cache'. color_range computed cls i to tokens cache = Inr (tokens', cache')
        \<and> length tokens' = length tokens"
proof (induction computed cls i to tokens cache rule: color_range.induct)
  case (1 computed className i to tokens STYLE_CACHE)
  show ?case
  proof (cases "i < to")
    case False
    then show ?thesis by (simp add: color_range.simps[of _ _ i])
  next
    case True
    obtain s c' where g: "getStyle computed STYLE_CACHE className = (s, c')"
      by (cases "getStyle computed STYLE_CACHE className")
    have inb: "0 \<le> i \<and> i < int (length tokens)" using True 1 by simp
    have "\<exists>tokens' cache'. color_range computed className (i + 1) to
             (tokens[nat i := (tokens ! nat i)\<lparr>style_tok := s\<rparr>]) c' = Inr (tokens', cache')
           \<and> length tokens' = length (tokens[nat i := (tokens ! nat i)\<lparr>style_tok := s\<rparr>])"
      using "1.IH"[OF True inb g[symmetric]] "1.prems" by simp
    then show ?thesis
      using True inb g by (subst color_range.simps) simp
  qed
qed

lemma color_tokens_ok:
  "\<forall>(from, to, cls) \<in> set hs. 0 \<le> from \<and> from \<le> to \<and> to \<le> int (length tokens) \<Longrightarrow>
     \<exists>tokens' cache'. color_tokens computed hs tokens cache = Inr (tokens', cache')
        \<and> length tokens' = length tokens"
proof (induction hs arbitrary: tokens cache)
  case Nil
  then show ?case by simp
next
  case (Cons h hs)
  obtain "from" to cls where h: "h = (from, to, cls)" by (cases h)
  with Cons.prems have b: "0 \<le> from" "to \<le> int (length tokens)" by auto
  from color_range_ok[OF b] obtain t1 c1 where
    r: "color_range computed cls from to tokens cache = Inr (t1, c1)" "length t1 = length tokens"
    by blast
  have "\<forall>(from, to, cls) \<in> set hs. 0 \<le> from \<and> from \<le> to \<and> to \<le> int (length t1)"
    using Cons.prems r(2) by auto
  from Cons.IH[OF this, of c1] show ?case using h r by auto
qed

text \<open>
  C9. When every highlight \<open>(from, to, classes)\<close> has \<open>0 \<le> from \<le> to \<le>\<close> the length of
  the document, colouring the tokens never reaches a missing token: the pass does not
  end in a TypeError, and it leaves one token per character.
\<close>

theorem span_applier_in_bounds:
  "\<forall>(from, to, cls) \<in> set highlighting. 0 \<le> from \<and> from \<le> to \<and> to \<le> int (length docContents) \<Longrightarrow>
     \<exists>tokens cache'. styled_tokens computed cache docContents highlighting = Inr (tokens, cache')
        \<and> length tokens = length docContents"
  using color_tokens_ok[of highlighting "grid_tokens docContents" computed cache]
  by (simp add: styled_tokens_def grid_tokens_length)

theorem span_applier_in_bounds_witness:
  "(0::int) \<le> 0 \<and> (0::int) \<le> 1 \<and> (1::int) \<le> 2 \<and> 2 \<le> int (length ''ab'')
   \<and> (\<exists>tokens cache'.
         styled_tokens (\<lambda>c. \<lparr>color = c, weight = ''400''\<rparr>) Map.empty ''ab''
           [(0, 1, ''kw''), (1, 2, ''id'')] = Inr (tokens, cache')
         \<and> length tokens = length ''ab'')"
  using span_applier_in_bounds [of "[(0, 1, ''kw''), (1, 2, ''id'')]" "''ab''"
      "\<lambda>c. \<lparr>color = c, weight = ''400''\<rparr>" Map.empty]
  by simp

section \<open>Grid tokenizer\<close>

lemma spec_rows_nonempty: "spec_rows s \<noteq> []"
  by (induction s) auto

lemma Max_foldr_nonneg:
  "L \<noteq> [] \<Longrightarrow> \<forall>v \<in> set L. (0::int) \<le> v \<Longrightarrow> Max (set L) = foldr max L 0"
proof (induction L)
  case Nil then show ?case by simp
next
  case (Cons a L)
  show ?case
  proof (cases L)
    case Nil with Cons.prems show ?thesis by simp
  next
    case (Cons b L')
    then have "Max (set (a # L)) = max a (Max (set L))" by simp
    with Cons.IH Cons.prems Cons show ?thesis by simp
  qed
qed

lemma spec_width_foldr:
  "spec_width s = max (int (length (hd (spec_rows s))))
                      (foldr max (map (\<lambda>row. int (length row)) (tl (spec_rows s))) 0)"
proof -
  obtain r rs where rr: "spec_rows s = r # rs" using spec_rows_nonempty[of s] by (cases "spec_rows s") auto
  have "Max (set (map (\<lambda>row. int (length row)) (spec_rows s))) = foldr max (map (\<lambda>row. int (length row)) (spec_rows s)) 0"
    by (rule Max_foldr_nonneg) (auto simp: rr)
  then show ?thesis by (simp add: spec_width_def rr)
qed

lemma grid_loop_y:
  "fst (snd (snd (grid_loop s i x y w acc))) = y + int (count_list s (CHR 0x0A))"
  by (induction s arbitrary: i x y w acc) (simp_all add: Let_def newline_def)

lemma grid_loop_width:
  "0 \<le> x \<Longrightarrow> x \<le> w \<Longrightarrow>
     snd (snd (snd (grid_loop s i x y w acc))) =
       max w (max (x + int (length (hd (spec_rows s))))
                  (foldr max (map (\<lambda>row. int (length row)) (tl (spec_rows s))) 0))"
proof (induction s arbitrary: i x y w acc)
  case Nil
  then show ?case by simp
next
  case (Cons c cs)
  obtain r rs where rr: "spec_rows cs = r # rs" using spec_rows_nonempty[of cs] by (cases "spec_rows cs") auto
  show ?case
  proof (cases "[c] = newline")
    case True
    have "0 \<le> (0::int)" "0 \<le> w" using Cons.prems by simp_all
    from Cons.IH[OF this] True Cons.prems show ?thesis
      by (simp add: Let_def rr)
  next
    case False
    have a: "0 \<le> x + 1" "x + 1 \<le> (if x + 1 > w then x + 1 else w)" using Cons.prems by simp_all
    from Cons.IH[OF a] False Cons.prems show ?thesis
      by (simp add: Let_def rr max_def)
  qed
qed

lemma grid_loop_append:
  "grid_loop (s @ t) i x y w acc =
     (case grid_loop s i x y w acc of
        (acc', x', y', w') \<Rightarrow> grid_loop t (i + int (length s)) x' y' w' acc')"
  by (induction s arbitrary: i x y w acc) (simp_all add: Let_def add.assoc)

lemma placeholder_loop_grid:
  "placeholder_loop s i x y w (map (\<lambda>t. t\<lparr>style_tok := placeholder_style\<rparr>) acc) =
     (case grid_loop s i x y w acc of
        (tokens, rest) \<Rightarrow> (map (\<lambda>t. t\<lparr>style_tok := placeholder_style\<rparr>) tokens, rest))"
proof (induction s arbitrary: i x y w acc)
  case Nil then show ?case by simp
next
  case (Cons c cs)
  let ?f = "\<lambda>t. t\<lparr>style_tok := placeholder_style\<rparr>"
  let ?cell = "\<lparr>i_tok = i, x_tok = x, y_tok = y, text_tok = [c], style_tok = DEFAULT_STYLE\<rparr>"
  have m: "map ?f acc @ [\<lparr>i_tok = i, x_tok = x, y_tok = y, text_tok = [c],
              style_tok = \<lparr>color = PLACEHOLDER, weight = ''normal''\<rparr>\<rparr>] = map ?f (acc @ [?cell])"
    by (simp add: placeholder_style_def)
  show ?case
  proof (cases "[c] = newline")
    case True
    show ?thesis
      by (simp only: placeholder_loop.simps grid_loop.simps Let_def if_P[OF True] m Cons.IH)
  next
    case False
    show ?thesis
      by (simp only: placeholder_loop.simps grid_loop.simps Let_def if_not_P[OF False] m Cons.IH)
  qed
qed

lemma placeholderTokens_grid:
  "placeholderTokens s l =
     \<lparr>type_msg = ''text'', width_msg = grid_width s, height_msg = grid_height s, text_msg = s,
      tokens_msg = map (\<lambda>t. t\<lparr>style_tok := placeholder_style\<rparr>) (grid_tokens s),
      language_msg = (case l of None \<Rightarrow> Some ''JavaScript'' | Some l \<Rightarrow> Some l)\<rparr>"
  using placeholder_loop_grid[of s 0 0 0 0 "[]"]
  by (simp add: placeholderTokens_def grid_width_def grid_height_def grid_y_def grid_tokens_def grid_def
        split: prod.splits)

lemma grid_snoc:
  "grid (S @ [c]) =
     (let cell = \<lparr>i_tok = int (length S), x_tok = grid_x S, y_tok = grid_y S, text_tok = [c],
                   style_tok = DEFAULT_STYLE\<rparr>
      in if [c] = newline
         then (grid_tokens S @ [cell], 0, grid_y S + 1, grid_width S)
         else (grid_tokens S @ [cell], grid_x S + 1, grid_y S, max (grid_width S) (grid_x S + 1)))"
  by (simp add: grid_def grid_tokens_def grid_x_def grid_y_def grid_width_def grid_loop_append
        Let_def max_def split: prod.splits)

text \<open>
  C2. For every string the tokenizer's height is the number of line feeds plus one and
  its width is the largest number of characters in a row; the empty string gives width
  0, height 1 and no cell. Reading one more character after \<open>S\<close>: a line feed is stored
  at the current row and column, starts a new row at column 0 and leaves the width as it
  is; any other character is stored at the current row and column, moves the column by
  one and makes the width the maximum of the old width and the new column. The loop of
  \<open>placeholderTokens\<close> computes the same width and height.
\<close>

theorem grid_width_height:
  "grid_height S = spec_height S
   \<and> grid_width S = spec_width S
   \<and> grid [] = ([], 0, 0, 0) \<and> grid_width [] = 0 \<and> grid_height [] = 1
   \<and> length (grid_tokens S) = length S
   \<and> grid (S @ newline) =
       (grid_tokens S @ [\<lparr>i_tok = int (length S), x_tok = grid_x S, y_tok = grid_y S,
                            text_tok = newline, style_tok = DEFAULT_STYLE\<rparr>],
        0, grid_y S + 1, grid_width S)
   \<and> (\<forall>c. [c] \<noteq> newline \<longrightarrow>
         grid (S @ [c]) =
           (grid_tokens S @ [\<lparr>i_tok = int (length S), x_tok = grid_x S, y_tok = grid_y S,
                                text_tok = [c], style_tok = DEFAULT_STYLE\<rparr>],
            grid_x S + 1, grid_y S, max (grid_width S) (grid_x S + 1)))
   \<and> width_msg (placeholderTokens S language) = spec_width S
   \<and> height_msg (placeholderTokens S language) = spec_height S"
proof -
  have h: "grid_height S = spec_height S"
    by (simp add: grid_height_def grid_y_def grid_def grid_loop_y spec_height_def)
  have w: "grid_width S = spec_width S"
    using grid_loop_width[of 0 0 S 0 0 "[]"]
    by (simp add: grid_width_def grid_def spec_width_foldr)
  have e: "grid [] = ([], 0, 0, 0) \<and> grid_width [] = 0 \<and> grid_height [] = 1"
    by (simp add: grid_def grid_width_def grid_height_def grid_y_def)
  have n: "grid (S @ newline) =
       (grid_tokens S @ [\<lparr>i_tok = int (length S), x_tok = grid_x S, y_tok = grid_y S,
                            text_tok = newline, style_tok = DEFAULT_STYLE\<rparr>],
        0, grid_y S + 1, grid_width S)"
    using grid_snoc[of S "CHR 0x0A"] by (simp add: newline_def)
  have c: "\<forall>c. [c] \<noteq> newline \<longrightarrow>
         grid (S @ [c]) =
           (grid_tokens S @ [\<lparr>i_tok = int (length S), x_tok = grid_x S, y_tok = grid_y S,
                                text_tok = [c], style_tok = DEFAULT_STYLE\<rparr>],
            grid_x S + 1, grid_y S, max (grid_width S) (grid_x S + 1))"
    by (simp add: grid_snoc)
  have p: "width_msg (placeholderTokens S language) = spec_width S
     \<and> height_msg (placeholderTokens S language) = spec_height S"
    by (simp add: placeholderTokens_grid h w)
  from h w e n c p grid_tokens_length[of S] show ?thesis by blast
qed

theorem grid_width_height_witness:
  "grid_width (''ab'' @ newline @ ''c'' @ newline) = 2
   \<and> grid_height (''ab'' @ newline @ ''c'' @ newline) = 3
   \<and> spec_rows (''ab'' @ newline @ ''c'' @ newline) = [''ab'', ''c'', []]
   \<and> [CHR ''d''] \<noteq> newline
   \<and> grid_width ((''ab'' @ newline @ ''c'') @ [CHR ''d'']) = 2"
proof -
  have a: "spec_width (''ab'' @ newline @ ''c'' @ newline) = 2"
    by code_simp
  have b: "spec_height (''ab'' @ newline @ ''c'' @ newline) = 3"
    by code_simp
  have r: "spec_rows (''ab'' @ newline @ ''c'' @ newline) = [''ab'', ''c'', []]"
    by code_simp
  have d: "[CHR ''d''] \<noteq> newline"
    by (simp add: newline_def)
  have s: "spec_width (''ab'' @ newline @ ''c'') = 2" "grid_x (''ab'' @ newline @ ''c'') = 1"
    by code_simp+
  from grid_width_height [of "''ab'' @ newline @ ''c'' @ newline"]
       grid_width_height [of "''ab'' @ newline @ ''c''"] a b r d s
  show ?thesis by (simp add: grid_width_def)
qed

section \<open>Placeholder synthesizer\<close>

text \<open>
  C5, as the design states it, fails: for the constant placeholder string the widget
  emits twelve tokens of one character each, where the tokenizer, the muted style and
  the coalescer give one run.
\<close>

theorem placeholder_pipeline_counterexample:
  "tokens_msg (placeholderTokens PLACEHOLDER_TEXT None)
     \<noteq> tokens_msg (spec_placeholder PLACEHOLDER_TEXT None)
   \<and> length (tokens_msg (placeholderTokens PLACEHOLDER_TEXT None)) = 12
   \<and> tokens_msg (spec_placeholder PLACEHOLDER_TEXT None) =
       [\<lparr>i_tok = 0, x_tok = 0, y_tok = 0, text_tok = ''Type code...'',
         style_tok = \<lparr>color = ''rgb(128, 128, 128)'', weight = ''normal''\<rparr>\<rparr>]"
  by code_simp

text \<open>
  C5, amended. \<open>placeholderTokens\<close> is the grid tokenizer with the fixed muted style on
  every cell and no coalescing: width, height, text and language are those of the
  pipeline, the language is "JavaScript" when none is given, and the tokens are the
  tokenizer's cells, one per character (line feeds included), each with the muted style.
\<close>

theorem placeholder_uncoalesced:
  "placeholderTokens placeholderText language =
     (spec_placeholder placeholderText language)
       \<lparr>tokens_msg := map (\<lambda>t. t\<lparr>style_tok := placeholder_style\<rparr>) (grid_tokens placeholderText)\<rparr>
   \<and> language_msg (placeholderTokens placeholderText None) = Some ''JavaScript''
   \<and> length (tokens_msg (placeholderTokens placeholderText language)) = length placeholderText"
  by (simp add: placeholderTokens_grid spec_placeholder_def grid_tokens_length)

theorem placeholder_uncoalesced_witness:
  "placeholderTokens ''Hi'' None =
     \<lparr>type_msg = ''text'', width_msg = 2, height_msg = 1, text_msg = ''Hi'',
      tokens_msg =
        [\<lparr>i_tok = 0, x_tok = 0, y_tok = 0, text_tok = ''H'', style_tok = placeholder_style\<rparr>,
         \<lparr>i_tok = 1, x_tok = 1, y_tok = 0, text_tok = ''i'', style_tok = placeholder_style\<rparr>],
      language_msg = Some ''JavaScript''\<rparr>"
proof -
  have g: "grid ''Hi'' =
      ([\<lparr>i_tok = 0, x_tok = 0, y_tok = 0, text_tok = ''H'', style_tok = DEFAULT_STYLE\<rparr>,
        \<lparr>i_tok = 1, x_tok = 1, y_tok = 0, text_tok = ''i'', style_tok = DEFAULT_STYLE\<rparr>], 2, 0, 2)"
    by (simp add: grid_def newline_def)
  from placeholder_uncoalesced [of "''Hi''" None] show ?thesis
    by (simp add: spec_placeholder_def grid_width_def grid_height_def grid_y_def grid_tokens_def g)
qed

section \<open>Run coalescer and snapshots\<close>

lemma foldl_text: "foldl (\<lambda>acc token. acc @ text_tok token) a run = a @ concat (map text_tok run)"
  by (induction run arbitrary: a) simp_all

lemma flushTokens_flushed: "flushTokens newTokens currentRun = (newTokens @ flushed currentRun, [])"
  by (cases currentRun) (simp_all add: flushTokens_def flushed_def run_of_def foldl_text)

lemma group_loop_out:
  "(case group_loop tokens newTokens prevToken currentRun of
      (newTokens', currentRun') \<Rightarrow> fst (flushTokens newTokens' currentRun'))
   = newTokens @ group_out tokens prevToken currentRun"
proof (induction tokens arbitrary: newTokens prevToken currentRun)
  case Nil
  then show ?case by (simp add: flushTokens_flushed)
next
  case (Cons t ts)
  show ?case
  proof (cases "text_tok t = newline")
    case True
    then show ?thesis using Cons.IH by (simp add: flushTokens_flushed)
  next
    case False
    then show ?thesis using Cons.IH
      by (cases prevToken) (simp_all add: flushTokens_flushed styles_differ_def)
  qed
qed

lemma group_tokens_out: "group_tokens tokens = group_out tokens None []"
  using group_loop_out[of tokens "[]" None "[]"] by (simp add: group_tokens_def)

lemma cells_ok_geom:
  "map geom a = map geom b \<Longrightarrow> cells_ok i x y a = cells_ok i x y b"
proof (induction a arbitrary: b i x y)
  case Nil then show ?case by simp
next
  case (Cons c cs)
  then obtain d ds where b: "b = d # ds" "geom c = geom d" "map geom cs = map geom ds" by (cases b) auto
  from Cons.IH[OF b(3)] b(2) show ?case by (simp add: b(1) geom_def)
qed

lemma grid_loop_cells:
  "\<exists>ts. fst (grid_loop s i x y w acc) = acc @ ts \<and> cells_ok i x y ts
      \<and> map text_tok ts = map (\<lambda>c. [c]) s \<and> (\<forall>t \<in> set ts. style_tok t = DEFAULT_STYLE)"
proof (induction s arbitrary: i x y w acc)
  case Nil then show ?case by simp
next
  case (Cons c cs)
  let ?cell = "\<lparr>i_tok = i, x_tok = x, y_tok = y, text_tok = [c], style_tok = DEFAULT_STYLE\<rparr>"
  show ?case
  proof (cases "[c] = newline")
    case True
    from Cons.IH[of "i + 1" 0 "y + 1" w "acc @ [?cell]"] obtain ts where
      "fst (grid_loop cs (i + 1) 0 (y + 1) w (acc @ [?cell])) = (acc @ [?cell]) @ ts"
      "cells_ok (i + 1) 0 (y + 1) ts" "map text_tok ts = map (\<lambda>c. [c]) cs"
      "\<forall>t \<in> set ts. style_tok t = DEFAULT_STYLE" by blast
    then show ?thesis using True by (intro exI[of _ "?cell # ts"]) (simp add: Let_def newline_def)
  next
    case False
    from Cons.IH[of "i + 1" "x + 1" y "if x + 1 > w then x + 1 else w" "acc @ [?cell]"] obtain ts where
      "fst (grid_loop cs (i + 1) (x + 1) y (if x + 1 > w then x + 1 else w) (acc @ [?cell])) = (acc @ [?cell]) @ ts"
      "cells_ok (i + 1) (x + 1) y ts" "map text_tok ts = map (\<lambda>c. [c]) cs"
      "\<forall>t \<in> set ts. style_tok t = DEFAULT_STYLE" by blast
    then show ?thesis using False by (intro exI[of _ "?cell # ts"]) (simp add: Let_def)
  qed
qed

lemma grid_tokens_cells:
  "cells_ok 0 0 0 (grid_tokens s) \<and> map text_tok (grid_tokens s) = map (\<lambda>c. [c]) s
     \<and> (\<forall>t \<in> set (grid_tokens s). style_tok t = DEFAULT_STYLE)"
  using grid_loop_cells[of s 0 0 0 0 "[]"] by (auto simp: grid_tokens_def grid_def)

lemma color_range_geom:
  "color_range computed cls i to tokens cache = Inr (tokens', cache') \<Longrightarrow>
     map geom tokens' = map geom tokens"
proof (induction computed cls i to tokens cache rule: color_range.induct)
  case (1 computed className i to tokens STYLE_CACHE)
  show ?case
  proof (cases "i < to")
    case False
    with "1.prems" show ?thesis by (simp add: color_range.simps[of _ _ i])
  next
    case True
    obtain s c' where g: "getStyle computed STYLE_CACHE className = (s, c')"
      by (cases "getStyle computed STYLE_CACHE className")
    have inb: "0 \<le> i \<and> i < int (length tokens)"
      using True "1.prems" by (subst (asm) color_range.simps) (simp split: if_splits)
    have step: "color_range computed className (i + 1) to
             (tokens[nat i := (tokens ! nat i)\<lparr>style_tok := s\<rparr>]) c' = Inr (tokens', cache')"
      using True inb g "1.prems" by (subst (asm) color_range.simps) simp
    have n: "nat i < length tokens" using inb by linarith
    have "geom ((tokens ! nat i)\<lparr>style_tok := s\<rparr>) = map geom tokens ! nat i"
      using n by (simp add: geom_def)
    then have "map geom (tokens[nat i := (tokens ! nat i)\<lparr>style_tok := s\<rparr>]) = map geom tokens"
      by (simp only: map_update list_update_id)
    with "1.IH"[OF True inb g[symmetric] step] show ?thesis by simp
  qed
qed

lemma color_tokens_geom:
  "color_tokens computed hs tokens cache = Inr (tokens', cache') \<Longrightarrow>
     map geom tokens' = map geom tokens"
proof (induction hs arbitrary: tokens cache)
  case Nil then show ?case by simp
next
  case (Cons h hs)
  obtain "from" to cls where h: "h = (from, to, cls)" by (cases h)
  from Cons.prems h obtain t1 c1 where
    r: "color_range computed cls from to tokens cache = Inr (t1, c1)"
       "color_tokens computed hs t1 c1 = Inr (tokens', cache')"
    by (auto split: sum.splits)
  from Cons.IH[OF r(2)] color_range_geom[OF r(1)] show ?case by simp
qed

lemma styled_tokens_cells:
  assumes "styled_tokens computed cache s hs = Inr (cells, cache')"
  shows "cells_ok 0 0 0 cells" "map text_tok cells = map (\<lambda>c. [c]) s"
    "map (\<lambda>c. c\<lparr>style_tok := DEFAULT_STYLE\<rparr>) cells = grid_tokens s"
    "length cells = length s"
proof -
  have g: "map geom cells = map geom (grid_tokens s)"
    using assms color_tokens_geom by (simp add: styled_tokens_def)
  with cells_ok_geom grid_tokens_cells show "cells_ok 0 0 0 cells" by blast
  have "map text_tok cells = map (\<lambda>t. snd (snd (snd t))) (map geom cells)" by (simp add: geom_def)
  also have "\<dots> = map text_tok (grid_tokens s)" by (simp add: g geom_def)
  finally show t: "map text_tok cells = map (\<lambda>c. [c]) s" using grid_tokens_cells by simp
  then show "length cells = length s" using map_eq_imp_length_eq by fastforce
  have "\<forall>k < length cells. (cells ! k)\<lparr>style_tok := DEFAULT_STYLE\<rparr> = grid_tokens s ! k"
  proof (intro allI impI)
    fix k assume k: "k < length cells"
    have l: "length cells = length (grid_tokens s)" using g map_eq_imp_length_eq by blast
    have "geom (cells ! k) = geom (grid_tokens s ! k)"
      using g k l by (metis nth_map)
    moreover have "style_tok (grid_tokens s ! k) = DEFAULT_STYLE"
      using grid_tokens_cells[of s] k l nth_mem[of k "grid_tokens s"] by simp
    ultimately show "(cells ! k)\<lparr>style_tok := DEFAULT_STYLE\<rparr> = grid_tokens s ! k"
      by (cases "cells ! k"; cases "grid_tokens s ! k") (simp add: geom_def)
  qed
  then show "map (\<lambda>c. c\<lparr>style_tok := DEFAULT_STYLE\<rparr>) cells = grid_tokens s"
    using g map_eq_imp_length_eq by (intro nth_equalityI) (auto dest: map_eq_imp_length_eq)
qed

lemma group_out_runs:
  "r \<in> set (group_out ts prev cur) \<Longrightarrow> \<forall>c \<in> set cur. text_tok c \<noteq> newline \<Longrightarrow>
     \<exists>pre run post. cur @ ts = pre @ run @ post \<and> run \<noteq> [] \<and> r = run_of run
        \<and> (\<forall>c \<in> set run. text_tok c \<noteq> newline)"
proof (induction ts arbitrary: prev cur)
  case Nil
  then have "cur \<noteq> []" "r = run_of cur" by (auto simp: flushed_def split: if_splits)
  with Nil.prems(2) show ?case by (intro exI[of _ "[]"] exI[of _ cur]) simp
next
  case (Cons t ts)
  have fl: "r \<in> set (flushed cur) \<Longrightarrow> ?case"
  proof -
    assume "r \<in> set (flushed cur)"
    then have "cur \<noteq> []" "r = run_of cur" by (auto simp: flushed_def split: if_splits)
    with Cons.prems(2) show ?case
      by (intro exI[of _ "[]"] exI[of _ cur] exI[of _ "t # ts"]) simp
  qed
  show ?case
  proof (cases "text_tok t = newline")
    case True
    with Cons.prems(1) consider "r \<in> set (flushed cur)" | "r \<in> set (group_out ts (Some t) [])"
      by auto
    then show ?thesis
    proof cases
      case 1 then show ?thesis by (rule fl)
    next
      case 2
      from Cons.IH[OF 2] obtain pre run post where
        d: "[] @ ts = pre @ run @ post" "run \<noteq> []" "r = run_of run" "\<forall>c \<in> set run. text_tok c \<noteq> newline"
        by auto
      then have "cur @ t # ts = (cur @ [t] @ pre) @ run @ post" by simp
      with d show ?thesis by blast
    qed
  next
    case False
    show ?thesis
    proof (cases "styles_differ prev t")
      case True
      with False Cons.prems(1) consider "r \<in> set (flushed cur)" | "r \<in> set (group_out ts (Some t) [t])"
        by auto
      then show ?thesis
      proof cases
        case 1 then show ?thesis by (rule fl)
      next
        case 2
        have "\<forall>c \<in> set [t]. text_tok c \<noteq> newline" using False by simp
        from Cons.IH[OF 2 this] obtain pre run post where
          d: "[t] @ ts = pre @ run @ post" "run \<noteq> []" "r = run_of run" "\<forall>c \<in> set run. text_tok c \<noteq> newline"
          by auto
        then have "cur @ t # ts = (cur @ pre) @ run @ post" by simp
        with d show ?thesis by blast
      qed
    next
      case nd: False
      with False Cons.prems(1) have 2: "r \<in> set (group_out ts (Some t) (cur @ [t]))" by simp
      have "\<forall>c \<in> set (cur @ [t]). text_tok c \<noteq> newline" using False Cons.prems(2) by simp
      from Cons.IH[OF 2 this] show ?thesis by simp
    qed
  qed
qed

lemma cells_ok_append:
  "cells_ok i x y (pre @ rest) \<Longrightarrow>
     \<exists>x' y'. y \<le> y' \<and> cells_ok (i + int (length pre)) x' y' rest"
proof (induction pre arbitrary: i x y)
  case Nil then show ?case by auto
next
  case (Cons c pre)
  show ?case
  proof (cases "text_tok c = newline")
    case True
    with Cons.prems have "cells_ok (i + 1) 0 (y + 1) (pre @ rest)" by simp
    from Cons.IH[OF this] obtain x' y' where
      "y + 1 \<le> y'" "cells_ok (i + 1 + int (length pre)) x' y' rest" by blast
    then have "y \<le> y' \<and> cells_ok (i + int (length (c # pre))) x' y' rest"
      by (simp add: add.assoc)
    then show ?thesis by blast
  next
    case False
    with Cons.prems have "cells_ok (i + 1) (x + 1) y (pre @ rest)" by simp
    from Cons.IH[OF this] show ?thesis by (auto simp: add.assoc)
  qed
qed

lemma cells_ok_append_row:
  "cells_ok i x y (pre @ rest) \<Longrightarrow> \<forall>c \<in> set pre. text_tok c \<noteq> newline \<Longrightarrow>
     cells_ok (i + int (length pre)) (x + int (length pre)) y rest"
proof (induction pre arbitrary: i x)
  case Nil then show ?case by auto
next
  case (Cons c pre)
  then have "cells_ok (i + 1) (x + 1) y (pre @ rest)" by simp
  from Cons.IH[OF this] Cons.prems(2) show ?case by (simp add: add.assoc)
qed

lemma cells_ok_hd:
  "cells_ok i x y cs \<Longrightarrow> cs \<noteq> [] \<Longrightarrow> i_tok (hd cs) = i \<and> x_tok (hd cs) = x \<and> y_tok (hd cs) = y"
  by (cases cs) simp_all

lemma cells_ok_texts: "cells_ok i x y cs \<Longrightarrow> c \<in> set cs \<Longrightarrow> length (text_tok c) = 1"
  by (induction cs arbitrary: i x y) (auto split: if_splits)













section \<open>Coalescing is lossless and maximal\<close>

lemma run_paint_append: "run_paint (a @ b) = run_paint a @ run_paint b"
  by (simp add: run_paint_def)

lemma cell_paint_append: "cell_paint (a @ b) = cell_paint a @ cell_paint b"
  by (simp add: cell_paint_def)

lemma segment_positions:
  "cells_ok i x y (cur @ rest) \<Longrightarrow> \<forall>c \<in> set cur. text_tok c \<noteq> newline \<Longrightarrow>
     map (\<lambda>c. (y_tok c, x_tok c)) cur = map (\<lambda>d. (y, x + int d)) [0..<length cur]
     \<and> length (concat (map text_tok cur)) = length cur"
proof (induction cur arbitrary: i x)
  case Nil then show ?case by simp
next
  case (Cons c cur)
  then have ok: "cells_ok (i + 1) (x + 1) y (cur @ rest)" and h: "x_tok c = x" "y_tok c = y"
     "length (text_tok c) = 1" by simp_all
  from Cons.IH[OF ok] Cons.prems(2) have
    ih: "map (\<lambda>c. (y_tok c, x_tok c)) cur = map (\<lambda>d. (y, x + 1 + int d)) [0..<length cur]"
        "length (concat (map text_tok cur)) = length cur" by simp_all
  have "[0..<length (c # cur)] = 0 # map Suc [0..<length cur]"
    by (simp add: upt_conv_Cons map_Suc_upt del: upt_Suc)
  then show ?case using ih h by (simp add: add.assoc del: upt_Suc)
qed

lemma run_paint_flushed:
  assumes "cells_ok i x y (cur @ rest)" "\<forall>c \<in> set cur. text_tok c \<noteq> newline"
    "\<forall>c \<in> set cur. style_tok c = s"
  shows "run_paint (flushed cur) = cell_paint cur"
proof (cases "cur = []")
  case True then show ?thesis by (simp add: flushed_def run_paint_def cell_paint_def)
next
  case False
  from segment_positions[OF assms(1,2)] have
    p: "map (\<lambda>c. (y_tok c, x_tok c)) cur = map (\<lambda>d. (y, x + int d)) [0..<length cur]"
    and l: "length (concat (map text_tok cur)) = length cur" by simp_all
  have hd: "x_tok (hd cur) = x" "y_tok (hd cur) = y" "style_tok (hd cur) = s"
    using assms False by (cases cur; simp)+
  have f: "filter (\<lambda>c. text_tok c \<noteq> newline) cur = cur" using assms(2) by simp
  have "map (\<lambda>c. (y_tok c, x_tok c, style_tok c)) cur
      = map (\<lambda>q. (fst q, snd q, s)) (map (\<lambda>c. (y_tok c, x_tok c)) cur)"
    using assms(3) by simp
  also have "\<dots> = map (\<lambda>d. (y, x + int d, s)) [0..<length cur]"
    unfolding p by simp
  finally show ?thesis using False hd l
    by (simp add: flushed_def run_paint_def cell_paint_def f run_of_def)
qed

lemma style_eq: "color a = color b \<Longrightarrow> weight a = weight b \<Longrightarrow> (a :: Style) = b"
  by simp

lemma group_out_paint:
  "cells_ok i x y (cur @ ts) \<Longrightarrow> \<forall>c \<in> set cur. text_tok c \<noteq> newline \<Longrightarrow>
   \<forall>c \<in> set cur. style_tok c = s \<Longrightarrow> (cur \<noteq> [] \<longrightarrow> prev = Some (last cur)) \<Longrightarrow>
     run_paint (group_out ts prev cur) = cell_paint (cur @ ts)"
proof (induction ts arbitrary: prev cur i x y s)
  case Nil
  from run_paint_flushed[OF Nil.prems(1,2,3)] show ?case by simp
next
  case (Cons t ts)
  note fl = run_paint_flushed[OF Cons.prems(1,2,3)]
  from cells_ok_append[OF Cons.prems(1)] obtain x' y' where
    ok: "cells_ok (i + int (length cur)) x' y' (t # ts)" by blast
  show ?case
  proof (cases "text_tok t = newline")
    case True
    from ok True have "cells_ok (i + int (length cur) + 1) 0 (y' + 1) ([] @ ts)" by simp
    from Cons.IH[OF this, of s "Some t"] have "run_paint (group_out ts (Some t) []) = cell_paint ts" by simp
    with fl True show ?thesis by (simp add: run_paint_append cell_paint_append cell_paint_def)
  next
    case False
    show ?thesis
    proof (cases "styles_differ prev t")
      case True
      from ok have "cells_ok (i + int (length cur)) x' y' ([t] @ ts)" by simp
      from Cons.IH[OF this, of "style_tok t" "Some t"] False
      have "run_paint (group_out ts (Some t) [t]) = cell_paint (t # ts)" by simp
      with fl True False show ?thesis
        using cell_paint_append[of cur "t # ts"] by (simp add: run_paint_append)
    next
      case nd: False
      have st: "\<forall>c \<in> set (cur @ [t]). style_tok c = style_tok t"
      proof (cases "cur = []")
        case True then show ?thesis by simp
      next
        case ne: False
        with Cons.prems(4) have p: "prev = Some (last cur)" by simp
        with nd have "style_tok (last cur) = style_tok t"
          by (auto simp: styles_differ_def intro: style_eq)
        moreover have "style_tok (last cur) = s" using Cons.prems(3) ne by simp
        ultimately show ?thesis using Cons.prems(3) by simp
      qed
      have a: "cells_ok i x y ((cur @ [t]) @ ts)" using Cons.prems(1) by simp
      have b: "\<forall>c \<in> set (cur @ [t]). text_tok c \<noteq> newline" using Cons.prems(2) False by simp
      from Cons.IH[OF a b st, of "Some t"] nd False show ?thesis by simp
    qed
  qed
qed

lemma group_tokens_paint:
  "cells_ok 0 0 0 cells \<Longrightarrow> run_paint (group_tokens cells) = cell_paint cells"
  using group_out_paint[of 0 0 0 "[]" cells DEFAULT_STYLE None] by (simp add: group_tokens_out)

lemma cells_ok_after:
  "cells_ok i x y cs \<Longrightarrow> c \<in> set cs \<Longrightarrow> y < y_tok c \<or> (y = y_tok c \<and> x \<le> x_tok c)"
proof (induction cs arbitrary: i x y)
  case Nil then show ?case by simp
next
  case (Cons a cs)
  show ?case
  proof (cases "c = a")
    case True with Cons.prems show ?thesis by simp
  next
    case False
    with Cons.prems have m: "c \<in> set cs" by simp
    show ?thesis
    proof (cases "text_tok a = newline")
      case True
      with Cons.prems have "cells_ok (i + 1) 0 (y + 1) cs" by simp
      from Cons.IH[OF this m] show ?thesis by auto
    next
      case False
      with Cons.prems have "cells_ok (i + 1) (x + 1) y cs" by simp
      from Cons.IH[OF this m] show ?thesis by auto
    qed
  qed
qed

lemma cells_ok_position_inj:
  "cells_ok i x y cs \<Longrightarrow> c \<in> set cs \<Longrightarrow> c' \<in> set cs \<Longrightarrow>
     x_tok c = x_tok c' \<Longrightarrow> y_tok c = y_tok c' \<Longrightarrow> c = c'"
proof (induction cs arbitrary: i x y)
  case Nil then show ?case by simp
next
  case (Cons a cs)
  obtain i' x' y' where ok: "cells_ok i' x' y' cs" and
    later: "y < y' \<or> (y = y' \<and> x < x')"
    using Cons.prems(1) by (cases "text_tok a = newline") auto
  have a: "x_tok a = x" "y_tok a = y" using Cons.prems(1) by simp_all
  have far: "d \<in> set cs \<Longrightarrow> \<not> (x_tok d = x \<and> y_tok d = y)" for d
    using cells_ok_after[OF ok] later by force
  show ?case
  proof (cases "c = a")
    case True
    show ?thesis
    proof (cases "c' = a")
      case True with \<open>c = a\<close> show ?thesis by simp
    next
      case False
      with Cons.prems(3) have "c' \<in> set cs" by simp
      from far[OF this] True a Cons.prems(4,5) show ?thesis by simp
    qed
  next
    case False
    with Cons.prems(2) have c: "c \<in> set cs" by simp
    show ?thesis
    proof (cases "c' = a")
      case True
      from far[OF c] True a Cons.prems(4,5) show ?thesis by simp
    next
      case False
      with Cons.prems(3) have "c' \<in> set cs" by simp
      from Cons.IH[OF ok c this Cons.prems(4,5)] show ?thesis .
    qed
  qed
qed

lemma replay_fold: "replay runs cells = map (fold paint1 runs) cells"
proof (induction runs arbitrary: cells)
  case Nil then show ?case by (simp add: replay_def)
next
  case (Cons r runs)
  have "replay (r # runs) cells = replay runs (replay_run r cells)" by (simp add: replay_def)
  also have "\<dots> = map (fold paint1 runs) (map (paint1 r) cells)"
    unfolding Cons.IH by (simp add: replay_run_def paint1_def)
  finally show ?case by simp
qed

lemma covers_restyle [simp]: "covers r (c\<lparr>style_tok := s\<rparr>) = covers r c"
  by (simp add: covers_def)

lemma fold_paint_none: "\<forall>r \<in> set runs. \<not> covers r c \<Longrightarrow> fold paint1 runs c = c"
proof (induction runs)
  case Nil then show ?case by simp
next
  case (Cons r runs)
  then have "paint1 r c = c" by (simp add: paint1_def)
  with Cons show ?case by simp
qed

lemma fold_paint_some:
  "\<exists>r \<in> set runs. covers r c \<Longrightarrow> \<forall>r \<in> set runs. covers r c \<longrightarrow> style_tok r = s \<Longrightarrow>
     fold paint1 runs c = c\<lparr>style_tok := s\<rparr>"
proof (induction runs arbitrary: c)
  case Nil then show ?case by simp
next
  case (Cons r runs)
  have all: "\<forall>q \<in> set runs. covers q c \<longrightarrow> style_tok q = s" using Cons.prems(2) by simp
  show ?case
  proof (cases "covers r c")
    case cr: True
    then have "style_tok r = s" using Cons.prems(2) by simp
    with cr have step: "paint1 r c = c\<lparr>style_tok := s\<rparr>" by (simp add: paint1_def)
    have "fold paint1 runs (c\<lparr>style_tok := s\<rparr>) = c\<lparr>style_tok := s\<rparr>"
    proof (cases "\<exists>q \<in> set runs. covers q c")
      case True
      then have e: "\<exists>q \<in> set runs. covers q (c\<lparr>style_tok := s\<rparr>)" by simp
      have a: "\<forall>q \<in> set runs. covers q (c\<lparr>style_tok := s\<rparr>) \<longrightarrow> style_tok q = s" using all by simp
      from Cons.IH[OF e a] show ?thesis by simp
    next
      case False
      then have "\<forall>q \<in> set runs. \<not> covers q (c\<lparr>style_tok := s\<rparr>)" by simp
      from fold_paint_none[OF this] show ?thesis .
    qed
    with step show ?thesis by simp
  next
    case False
    then have step: "paint1 r c = c" by (simp add: paint1_def)
    from False Cons.prems(1) have "\<exists>q \<in> set runs. covers q c" by auto
    from Cons.IH[OF this all] step show ?thesis by simp
  qed
qed

lemma run_paint_single:
  "set (run_paint [r]) = (\<lambda>d. (y_tok r, x_tok r + int d, style_tok r)) ` {0..<length (text_tok r)}"
  by (simp add: run_paint_def)

lemma covers_paint:
  "covers r c \<longleftrightarrow> (y_tok c, x_tok c, style_tok r) \<in> set (run_paint [r])"
proof
  assume "covers r c"
  then have a: "0 \<le> x_tok c - x_tok r" "nat (x_tok c - x_tok r) < length (text_tok r)"
    "y_tok c = y_tok r" unfolding covers_def by linarith+
  have "(y_tok c, x_tok c, style_tok r)
     = (\<lambda>d. (y_tok r, x_tok r + int d, style_tok r)) (nat (x_tok c - x_tok r))"
    using a by simp
  moreover have "nat (x_tok c - x_tok r) \<in> {0..<length (text_tok r)}" using a by simp
  ultimately show "(y_tok c, x_tok c, style_tok r) \<in> set (run_paint [r])"
    unfolding run_paint_single by (rule image_eqI)
next
  assume "(y_tok c, x_tok c, style_tok r) \<in> set (run_paint [r])"
  then obtain d where "d < length (text_tok r)" "y_tok c = y_tok r" "x_tok c = x_tok r + int d"
    unfolding run_paint_single by auto
  then show "covers r c" by (simp add: covers_def)
qed

lemma run_paint_mem:
  "p \<in> set (run_paint runs) \<longleftrightarrow> (\<exists>r \<in> set runs. p \<in> set (run_paint [r]))"
  by (auto simp: run_paint_def)

lemma run_paint_style: "(a, b, s) \<in> set (run_paint [r]) \<Longrightarrow> s = style_tok r"
  unfolding run_paint_single by auto

lemma replay_cells:
  assumes ok: "cells_ok 0 0 0 cells"
  shows "replay (group_tokens cells) (map (\<lambda>c. c\<lparr>style_tok := DEFAULT_STYLE\<rparr>) cells) =
         map (\<lambda>c. if text_tok c = newline then c\<lparr>style_tok := DEFAULT_STYLE\<rparr> else c) cells"
proof -
  let ?runs = "group_tokens cells"
  note P = group_tokens_paint[OF ok]
  have cov: "style_tok r = style_tok c \<and> text_tok c \<noteq> newline"
    if "r \<in> set ?runs" "covers r c" "c \<in> set cells" for r c
  proof -
    from that(2) have "(y_tok c, x_tok c, style_tok r) \<in> set (run_paint [r])" by (simp add: covers_paint)
    with that(1) have "(y_tok c, x_tok c, style_tok r) \<in> set (run_paint ?runs)"
      using run_paint_mem by blast
    then have "(y_tok c, x_tok c, style_tok r) \<in> set (cell_paint cells)" by (simp add: P)
    then obtain c' where c': "c' \<in> set cells" "text_tok c' \<noteq> newline" "y_tok c' = y_tok c"
      "x_tok c' = x_tok c" "style_tok c' = style_tok r" by (auto simp: cell_paint_def)
    from cells_ok_position_inj[OF ok c'(1) that(3) c'(4) c'(3)] have "c' = c" .
    with c' show ?thesis by simp
  qed
  have each: "fold paint1 ?runs (c\<lparr>style_tok := DEFAULT_STYLE\<rparr>) =
       (if text_tok c = newline then c\<lparr>style_tok := DEFAULT_STYLE\<rparr> else c)"
    if c: "c \<in> set cells" for c
  proof (cases "text_tok c = newline")
    case True
    have "\<forall>r \<in> set ?runs. \<not> covers r (c\<lparr>style_tok := DEFAULT_STYLE\<rparr>)"
    proof
      fix r assume "r \<in> set ?runs"
      with cov[OF _ _ c, of r] True show "\<not> covers r (c\<lparr>style_tok := DEFAULT_STYLE\<rparr>)"
        by (simp only: covers_restyle) blast
    qed
    from fold_paint_none[OF this] True show ?thesis by simp
  next
    case False
    then have "(y_tok c, x_tok c, style_tok c) \<in> set (cell_paint cells)"
      using c by (auto simp: cell_paint_def)
    then have "(y_tok c, x_tok c, style_tok c) \<in> set (run_paint ?runs)" by (simp add: P)
    then obtain r where r: "r \<in> set ?runs" "(y_tok c, x_tok c, style_tok c) \<in> set (run_paint [r])"
      using run_paint_mem by blast
    from run_paint_style[OF r(2)] r(2) have "covers r c" by (simp add: covers_paint)
    with r(1) have ex: "\<exists>r \<in> set ?runs. covers r (c\<lparr>style_tok := DEFAULT_STYLE\<rparr>)"
      by (simp only: covers_restyle) blast
    have all: "\<forall>r \<in> set ?runs. covers r (c\<lparr>style_tok := DEFAULT_STYLE\<rparr>) \<longrightarrow> style_tok r = style_tok c"
    proof (intro ballI impI)
      fix r assume "r \<in> set ?runs" "covers r (c\<lparr>style_tok := DEFAULT_STYLE\<rparr>)"
      with cov[OF _ _ c, of r] show "style_tok r = style_tok c"
        by (simp only: covers_restyle)
    qed
    from fold_paint_some[OF ex all] False show ?thesis by simp
  qed
  show ?thesis unfolding replay_fold map_map comp_def using each by (intro map_cong) simp_all
qed

lemma group_out_hd:
  "cur \<noteq> [] \<Longrightarrow> group_out ts prev cur \<noteq> []
     \<and> i_tok (hd (group_out ts prev cur)) = i_tok (hd cur)
     \<and> x_tok (hd (group_out ts prev cur)) = x_tok (hd cur)
     \<and> y_tok (hd (group_out ts prev cur)) = y_tok (hd cur)
     \<and> style_tok (hd (group_out ts prev cur)) = style_tok (hd cur)"
proof (induction ts arbitrary: prev cur)
  case Nil
  then show ?case by (simp add: flushed_def run_of_def)
next
  case (Cons t ts)
  have "cur @ [t] \<noteq> []" by simp
  from Cons.IH[OF this, of "Some t"] Cons.prems show ?case
    by (simp add: flushed_def run_of_def)
qed

lemma group_out_rows:
  assumes "cells_ok i x y (cur @ ts)" "\<forall>c \<in> set cur. text_tok c \<noteq> newline"
    "r \<in> set (group_out ts prev cur)"
  shows "y \<le> y_tok r"
proof -
  from group_out_runs[OF assms(3,2)] obtain pre run post where
    d: "cur @ ts = pre @ run @ post" "run \<noteq> []" "r = run_of run" by blast
  then have "hd run \<in> set (cur @ ts)" by (cases run) simp_all
  from cells_ok_after[OF assms(1) this] d(3) show ?thesis by (auto simp: run_of_def)
qed

lemma group_out_adjacent:
  "cells_ok i x y (cur @ ts) \<Longrightarrow> \<forall>c \<in> set cur. text_tok c \<noteq> newline \<Longrightarrow>
   \<forall>c \<in> set cur. style_tok c = s \<Longrightarrow> (cur \<noteq> [] \<longrightarrow> prev = Some (last cur)) \<Longrightarrow>
     successively style_change (group_out ts prev cur)"
proof (induction ts arbitrary: prev cur i x y s)
  case Nil
  then show ?case by (simp add: flushed_def)
next
  case (Cons t ts)
  have sf: "successively style_change (flushed cur)" by (simp add: flushed_def)
  note row = cells_ok_append_row[OF Cons.prems(1,2)]
  have t: "i_tok t = i + int (length cur)" "x_tok t = x + int (length cur)" "y_tok t = y"
    using row by simp_all
  have curhd: "i_tok (hd cur) = i \<and> x_tok (hd cur) = x \<and> y_tok (hd cur) = y \<and> style_tok (hd cur) = s
      \<and> length (concat (map text_tok cur)) = length cur" if "cur \<noteq> []"
    using that Cons.prems(1,3) segment_positions[OF Cons.prems(1,2)] by (cases cur) simp_all
  show ?case
  proof (cases "text_tok t = newline")
    case True
    from row True have ok: "cells_ok (i + int (length cur) + 1) 0 (y + 1) ([] @ ts)" by simp
    have rest: "successively style_change (group_out ts (Some t) [])"
      by (rule Cons.IH[OF ok, of s]) simp_all
    have link: "style_change (last (flushed cur)) (hd (group_out ts (Some t) []))"
      if "flushed cur \<noteq> []" "group_out ts (Some t) [] \<noteq> []"
    proof -
      from that(1) have ne: "cur \<noteq> []" by (auto simp: flushed_def)
      have "hd (group_out ts (Some t) []) \<in> set (group_out ts (Some t) [])" using that(2) by simp
      from group_out_rows[OF ok _ this] have "y + 1 \<le> y_tok (hd (group_out ts (Some t) []))" by simp
      moreover have "y_tok (last (flushed cur)) = y" using ne curhd by (simp add: flushed_def run_of_def)
      ultimately show ?thesis by (simp add: style_change_def)
    qed
    from sf rest link True show ?thesis by (auto simp: successively_append_iff)
  next
    case False
    show ?thesis
    proof (cases "styles_differ prev t")
      case True
      from row have ok: "cells_ok (i + int (length cur)) (x + int (length cur)) y ([t] @ ts)" by simp
      have rest: "successively style_change (group_out ts (Some t) [t])"
        by (rule Cons.IH[OF ok, of "style_tok t"]) (simp_all add: False)
      have link: "style_change (last (flushed cur)) (hd (group_out ts (Some t) [t]))"
        if "flushed cur \<noteq> []"
      proof -
        from that have ne: "cur \<noteq> []" by (auto simp: flushed_def)
        with Cons.prems(4) have p: "prev = Some (last cur)" by simp
        have "style_tok (last cur) = s" using Cons.prems(3) ne by simp
        with True p have diff: "color s \<noteq> color (style_tok t) \<or> weight s \<noteq> weight (style_tok t)"
          by (simp add: styles_differ_def)
        have h: "i_tok (hd (group_out ts (Some t) [t])) = i_tok t"
          "x_tok (hd (group_out ts (Some t) [t])) = x_tok t"
          "style_tok (hd (group_out ts (Some t) [t])) = style_tok t"
          using group_out_hd[of "[t]" ts "Some t"] by simp_all
        show ?thesis
          unfolding style_change_def using ne curhd[OF ne] diff h t
          by (simp add: flushed_def run_of_def)
      qed
      from sf rest link True False show ?thesis by (auto simp: successively_append_iff)
    next
      case nd: False
      have st: "\<forall>c \<in> set (cur @ [t]). style_tok c = style_tok t"
      proof (cases "cur = []")
        case True then show ?thesis by simp
      next
        case ne: False
        with Cons.prems(4) have p: "prev = Some (last cur)" by simp
        with nd have "style_tok (last cur) = style_tok t"
          by (auto simp: styles_differ_def intro: style_eq)
        moreover have "style_tok (last cur) = s" using Cons.prems(3) ne by simp
        ultimately show ?thesis using Cons.prems(3) by simp
      qed
      have a: "cells_ok i x y ((cur @ [t]) @ ts)" using Cons.prems(1) by simp
      have b: "\<forall>c \<in> set (cur @ [t]). text_tok c \<noteq> newline" using Cons.prems(2) False by simp
      from Cons.IH[OF a b st, of "Some t"] nd False show ?thesis by simp
    qed
  qed
qed

lemma group_tokens_adjacent:
  "cells_ok 0 0 0 cells \<Longrightarrow> successively style_change (group_tokens cells)"
  using group_out_adjacent[of 0 0 0 "[]" cells DEFAULT_STYLE None] by (simp add: group_tokens_out)

text \<open>
  C4. Feed the coalescer the tokenizer's cells of any text with any styles. Two runs
  that follow each other in its output and lie on the same row differ in colour or in
  weight, and the second starts at the cell right after the last cell of the first: a
  run ends inside a row only where the style changes.
\<close>

theorem coalescer_maximal:
  assumes "map geom cells = map geom (grid_tokens S)"
    and "Suc k < length (group_tokens cells)"
    and "y_tok (group_tokens cells ! k) = y_tok (group_tokens cells ! Suc k)"
  shows "(color (style_tok (group_tokens cells ! k)) \<noteq> color (style_tok (group_tokens cells ! Suc k))
          \<or> weight (style_tok (group_tokens cells ! k)) \<noteq> weight (style_tok (group_tokens cells ! Suc k)))
     \<and> i_tok (group_tokens cells ! Suc k) =
         i_tok (group_tokens cells ! k) + int (length (text_tok (group_tokens cells ! k)))
     \<and> x_tok (group_tokens cells ! Suc k) =
         x_tok (group_tokens cells ! k) + int (length (text_tok (group_tokens cells ! k)))"
proof -
  have "cells_ok 0 0 0 cells"
    using cells_ok_geom[OF assms(1)] grid_tokens_cells[of S] by simp
  then have "successively style_change (group_tokens cells)"
    by (rule group_tokens_adjacent)
  from successively_nth[OF this assms(2)] assms(3) show ?thesis
    by (simp add: style_change_def)
qed

theorem coalescer_maximal_witness:
  "map geom
     [\<lparr>i_tok = 0, x_tok = 0, y_tok = 0, text_tok = ''a'',
       style_tok = \<lparr>color = ''rgb(119, 0, 136)'', weight = ''400''\<rparr>\<rparr>,
      \<lparr>i_tok = 1, x_tok = 1, y_tok = 0, text_tok = ''b'',
       style_tok = \<lparr>color = ''rgb(0, 0, 255)'', weight = ''400''\<rparr>\<rparr>,
      \<lparr>i_tok = 2, x_tok = 2, y_tok = 0, text_tok = ''c'',
       style_tok = \<lparr>color = ''rgb(0, 0, 255)'', weight = ''400''\<rparr>\<rparr>]
     = map geom (grid_tokens ''abc'')
   \<and> group_tokens
     [\<lparr>i_tok = 0, x_tok = 0, y_tok = 0, text_tok = ''a'',
       style_tok = \<lparr>color = ''rgb(119, 0, 136)'', weight = ''400''\<rparr>\<rparr>,
      \<lparr>i_tok = 1, x_tok = 1, y_tok = 0, text_tok = ''b'',
       style_tok = \<lparr>color = ''rgb(0, 0, 255)'', weight = ''400''\<rparr>\<rparr>,
      \<lparr>i_tok = 2, x_tok = 2, y_tok = 0, text_tok = ''c'',
       style_tok = \<lparr>color = ''rgb(0, 0, 255)'', weight = ''400''\<rparr>\<rparr>]
     = [\<lparr>i_tok = 0, x_tok = 0, y_tok = 0, text_tok = ''a'',
         style_tok = \<lparr>color = ''rgb(119, 0, 136)'', weight = ''400''\<rparr>\<rparr>,
        \<lparr>i_tok = 1, x_tok = 1, y_tok = 0, text_tok = ''bc'',
         style_tok = \<lparr>color = ''rgb(0, 0, 255)'', weight = ''400''\<rparr>\<rparr>]
   \<and> ''rgb(119, 0, 136)'' \<noteq> ''rgb(0, 0, 255)''"
proof -
  let ?cells = "[\<lparr>i_tok = 0, x_tok = 0, y_tok = 0, text_tok = ''a'',
       style_tok = \<lparr>color = ''rgb(119, 0, 136)'', weight = ''400''\<rparr>\<rparr>,
      \<lparr>i_tok = 1, x_tok = 1, y_tok = 0, text_tok = ''b'',
       style_tok = \<lparr>color = ''rgb(0, 0, 255)'', weight = ''400''\<rparr>\<rparr>,
      \<lparr>i_tok = 2, x_tok = 2, y_tok = 0, text_tok = ''c'',
       style_tok = \<lparr>color = ''rgb(0, 0, 255)'', weight = ''400''\<rparr>\<rparr>]"
  have g: "map geom ?cells = map geom (grid_tokens ''abc'')"
    by code_simp
  have r: "group_tokens ?cells
     = [\<lparr>i_tok = 0, x_tok = 0, y_tok = 0, text_tok = ''a'',
         style_tok = \<lparr>color = ''rgb(119, 0, 136)'', weight = ''400''\<rparr>\<rparr>,
        \<lparr>i_tok = 1, x_tok = 1, y_tok = 0, text_tok = ''bc'',
         style_tok = \<lparr>color = ''rgb(0, 0, 255)'', weight = ''400''\<rparr>\<rparr>]"
    by code_simp
  have k: "Suc 0 < length (group_tokens ?cells)"
    by (simp add: r)
  have y: "y_tok (group_tokens ?cells ! 0) = y_tok (group_tokens ?cells ! Suc 0)"
    by (simp add: r)
  from coalescer_maximal [OF g k y] have "''rgb(119, 0, 136)'' \<noteq> ''rgb(0, 0, 255)''"
    by (simp add: r)
  with g r show ?thesis by simp
qed

text \<open>
  C1, as stated, fails on line feeds: a highlight that spans a line feed styles the line
  feed's cell, no run covers that cell, and the replay leaves it with the default style.
  For the text a, line feed, b with one highlight over all three characters, the cell
  of the line feed differs.
\<close>

theorem round_trip_counterexample:
  "map_sum id fst
     (styled_tokens (\<lambda>c. \<lparr>color = ''rgb(170, 85, 0)'', weight = ''400''\<rparr>) Map.empty
        [CHR ''a'', CHR 0x0A, CHR ''b''] [(0, 3, ''cm'')])
     = Inr [\<lparr>i_tok = 0, x_tok = 0, y_tok = 0, text_tok = ''a'',
              style_tok = \<lparr>color = ''rgb(170, 85, 0)'', weight = ''400''\<rparr>\<rparr>,
            \<lparr>i_tok = 1, x_tok = 1, y_tok = 0, text_tok = [CHR 0x0A],
              style_tok = \<lparr>color = ''rgb(170, 85, 0)'', weight = ''400''\<rparr>\<rparr>,
            \<lparr>i_tok = 2, x_tok = 0, y_tok = 1, text_tok = ''b'',
              style_tok = \<lparr>color = ''rgb(170, 85, 0)'', weight = ''400''\<rparr>\<rparr>]
   \<and> map_sum id (tokens_msg \<circ> fst)
       (update_message (\<lambda>c. \<lparr>color = ''rgb(170, 85, 0)'', weight = ''400''\<rparr>) Map.empty
          [CHR ''a'', CHR 0x0A, CHR ''b''] [(0, 3, ''cm'')] ''JavaScript'')
     = Inr [\<lparr>i_tok = 0, x_tok = 0, y_tok = 0, text_tok = ''a'',
              style_tok = \<lparr>color = ''rgb(170, 85, 0)'', weight = ''400''\<rparr>\<rparr>,
            \<lparr>i_tok = 2, x_tok = 0, y_tok = 1, text_tok = ''b'',
              style_tok = \<lparr>color = ''rgb(170, 85, 0)'', weight = ''400''\<rparr>\<rparr>]
   \<and> replay
        [\<lparr>i_tok = 0, x_tok = 0, y_tok = 0, text_tok = ''a'',
          style_tok = \<lparr>color = ''rgb(170, 85, 0)'', weight = ''400''\<rparr>\<rparr>,
         \<lparr>i_tok = 2, x_tok = 0, y_tok = 1, text_tok = ''b'',
          style_tok = \<lparr>color = ''rgb(170, 85, 0)'', weight = ''400''\<rparr>\<rparr>]
        (grid_tokens [CHR ''a'', CHR 0x0A, CHR ''b''])
     = [\<lparr>i_tok = 0, x_tok = 0, y_tok = 0, text_tok = ''a'',
          style_tok = \<lparr>color = ''rgb(170, 85, 0)'', weight = ''400''\<rparr>\<rparr>,
        \<lparr>i_tok = 1, x_tok = 1, y_tok = 0, text_tok = [CHR 0x0A],
          style_tok = \<lparr>color = [], weight = []\<rparr>\<rparr>,
        \<lparr>i_tok = 2, x_tok = 0, y_tok = 1, text_tok = ''b'',
          style_tok = \<lparr>color = ''rgb(170, 85, 0)'', weight = ''400''\<rparr>\<rparr>]
   \<and> \<lparr>color = [], weight = []\<rparr> \<noteq> \<lparr>color = ''rgb(170, 85, 0)'', weight = ''400''\<rparr>"
  by code_simp

text \<open>
  C1, amended. Whenever the update listener posts a snapshot, tokenizing the snapshot's
  text again and replaying its runs by position gives the cells the pass produced, with
  the same character, index and position in every cell and the same style in every cell
  that is not a line feed; the cells of line feeds come out with the default style. So
  the grid is reproduced exactly when no highlight styled a line feed.
\<close>

theorem round_trip_amended:
  assumes "update_message computed cache docContents highlighting languageName = Inr (msg, cache')"
  shows "\<exists>cells. styled_tokens computed cache docContents highlighting = Inr (cells, cache')
     \<and> replay (tokens_msg msg) (grid_tokens (text_msg msg)) =
         map (\<lambda>c. if text_tok c = newline then c\<lparr>style_tok := DEFAULT_STYLE\<rparr> else c) cells
     \<and> ((\<forall>c \<in> set cells. text_tok c = newline \<longrightarrow> style_tok c = DEFAULT_STYLE) \<longrightarrow>
          replay (tokens_msg msg) (grid_tokens (text_msg msg)) = cells)"
proof -
  from assms obtain cells where
    c: "styled_tokens computed cache docContents highlighting = Inr (cells, cache')"
    and m: "tokens_msg msg = group_tokens cells" "text_msg msg = docContents"
    by (auto simp: update_message_def split: sum.splits)
  note g = styled_tokens_cells[OF c]
  have r: "replay (tokens_msg msg) (grid_tokens (text_msg msg)) =
         map (\<lambda>c. if text_tok c = newline then c\<lparr>style_tok := DEFAULT_STYLE\<rparr> else c) cells"
    using replay_cells[OF g(1)] by (simp add: m g(3))
  have "replay (tokens_msg msg) (grid_tokens (text_msg msg)) = cells"
    if "\<forall>c \<in> set cells. text_tok c = newline \<longrightarrow> style_tok c = DEFAULT_STYLE"
  proof -
    have "map (\<lambda>c. if text_tok c = newline then c\<lparr>style_tok := DEFAULT_STYLE\<rparr> else c) cells = cells"
      using that by (intro map_idI) auto
    with r show ?thesis by simp
  qed
  with c r show ?thesis by blast
qed

theorem round_trip_amended_witness:
  "map_sum id fst
     (update_message (\<lambda>c. \<lparr>color = ''rgb(119, 0, 136)'', weight = ''700''\<rparr>) Map.empty
        [CHR ''a'', CHR 0x0A, CHR ''b''] [(0, 1, ''kw'')] ''JavaScript'')
     = Inr \<lparr>type_msg = ''text'', width_msg = 1, height_msg = 2,
            text_msg = [CHR ''a'', CHR 0x0A, CHR ''b''],
            tokens_msg =
              [\<lparr>i_tok = 0, x_tok = 0, y_tok = 0, text_tok = ''a'',
                style_tok = \<lparr>color = ''rgb(119, 0, 136)'', weight = ''700''\<rparr>\<rparr>,
               \<lparr>i_tok = 2, x_tok = 0, y_tok = 1, text_tok = ''b'', style_tok = DEFAULT_STYLE\<rparr>],
            language_msg = Some ''JavaScript''\<rparr>
   \<and> (\<exists>cells cache'.
         styled_tokens (\<lambda>c. \<lparr>color = ''rgb(119, 0, 136)'', weight = ''700''\<rparr>) Map.empty
           [CHR ''a'', CHR 0x0A, CHR ''b''] [(0, 1, ''kw'')] = Inr (cells, cache')
         \<and> replay
             [\<lparr>i_tok = 0, x_tok = 0, y_tok = 0, text_tok = ''a'',
               style_tok = \<lparr>color = ''rgb(119, 0, 136)'', weight = ''700''\<rparr>\<rparr>,
              \<lparr>i_tok = 2, x_tok = 0, y_tok = 1, text_tok = ''b'', style_tok = DEFAULT_STYLE\<rparr>]
             (grid_tokens [CHR ''a'', CHR 0x0A, CHR ''b''])
           = map (\<lambda>c. if text_tok c = newline then c\<lparr>style_tok := DEFAULT_STYLE\<rparr> else c) cells)"
proof -
  let ?u = "update_message (\<lambda>c. \<lparr>color = ''rgb(119, 0, 136)'', weight = ''700''\<rparr>) Map.empty
        [CHR ''a'', CHR 0x0A, CHR ''b''] [(0, 1, ''kw'')] ''JavaScript''"
  let ?m = "\<lparr>type_msg = ''text'', width_msg = 1, height_msg = 2,
            text_msg = [CHR ''a'', CHR 0x0A, CHR ''b''],
            tokens_msg =
              [\<lparr>i_tok = 0, x_tok = 0, y_tok = 0, text_tok = ''a'',
                style_tok = \<lparr>color = ''rgb(119, 0, 136)'', weight = ''700''\<rparr>\<rparr>,
               \<lparr>i_tok = 2, x_tok = 0, y_tok = 1, text_tok = ''b'', style_tok = DEFAULT_STYLE\<rparr>],
            language_msg = Some ''JavaScript''\<rparr>"
  have e: "map_sum id fst ?u = Inr ?m"
    by code_simp
  then obtain cache' where u: "?u = Inr (?m, cache')"
    by (cases ?u) auto
  from round_trip_amended [OF u] e show ?thesis
    by auto
qed

end
